theory Spec2Isabelle
  imports Complex_Main "HOL-Library.AList" "HOL-Library.Sublist"
begin

section \<open>Python values\<close>

text \<open>
  The values that flow through \<^verbatim>\<open>GYG.py\<close>: what \<^verbatim>\<open>json.loads\<close> returns (null, booleans,
  integers, floats, strings, arrays, objects) and what a stored booking additionally holds
  (a \<^verbatim>\<open>datetime\<close>, counted in microseconds, and the store's \<^verbatim>\<open>ObjectId\<close>).
  A finite float is kept as the rational it denotes; \<^verbatim>\<open>json.loads\<close> also accepts
  \<^verbatim>\<open>NaN\<close>, \<^verbatim>\<open>Infinity\<close> and \<^verbatim>\<open>-Infinity\<close>.
  Strings are lists of 8-bit characters, read as code points below 256.
\<close>

datatype pyfloat = Finite rat | NaN | PosInf | NegInf

datatype pyval =
    PNone
  | PBool bool
  | PInt int
  | PFloat pyfloat
  | PStr string
  | PList "pyval list"
  | PDict "(string \<times> pyval) list"
  | PDatetime nat
  | PObjectId nat

datatype py_error =
  AttributeError | InvalidDocument | KeyError | OverflowError | TypeError | ValueError

text \<open>A \<^verbatim>\<open>dict\<close> with string keys, in insertion order; every key occurs once.\<close>

type_synonym doc = "(string \<times> pyval) list"

definition is_dict :: "doc \<Rightarrow> bool" where
  "is_dict d = distinct (map fst d)"

text \<open>\<^verbatim>\<open>d.get(k)\<close>: the value, or \<^verbatim>\<open>None\<close> for a missing key.\<close>

definition dget :: "doc \<Rightarrow> string \<Rightarrow> pyval" where
  "dget d k = (case map_of d k of None \<Rightarrow> PNone | Some v \<Rightarrow> v)"

text \<open>\<^verbatim>\<open>d[k] = v\<close>: overwrite in place, or append a new key.\<close>

definition dset :: "doc \<Rightarrow> string \<Rightarrow> pyval \<Rightarrow> doc" where
  "dset d k v = AList.update k v d"

text \<open>Truth value testing (\<^verbatim>\<open>if x:\<close>, \<^verbatim>\<open>x or y\<close>).\<close>

fun truthy :: "pyval \<Rightarrow> bool" where
  "truthy PNone = False"
| "truthy (PBool b) = b"
| "truthy (PInt i) = (i \<noteq> 0)"
| "truthy (PFloat f) = (f \<noteq> Finite 0)"
| "truthy (PStr s) = (s \<noteq> [])"
| "truthy (PList xs) = (xs \<noteq> [])"
| "truthy (PDict d) = (d \<noteq> [])"
| "truthy (PDatetime t) = True"
| "truthy (PObjectId i) = True"

text \<open>
  \<^verbatim>\<open>==\<close>: booleans, integers and floats compare by numeric value (\<^verbatim>\<open>True == 1 == 1.0\<close>),
  a NaN equals nothing, lists compare elementwise, dicts key by key whatever the order,
  and values of unrelated types are unequal. \<^verbatim>\<open>!=\<close> is its negation.
\<close>

fun num_of :: "pyval \<Rightarrow> pyfloat option" where
  "num_of (PBool b) = Some (Finite (if b then 1 else 0))"
| "num_of (PInt i) = Some (Finite (of_int i))"
| "num_of (PFloat f) = Some f"
| "num_of _ = None"

definition float_eq :: "pyfloat \<Rightarrow> pyfloat \<Rightarrow> bool" where
  "float_eq f g = (f \<noteq> NaN \<and> f = g)"

fun py_eq :: "pyval \<Rightarrow> pyval \<Rightarrow> bool" where
  "py_eq PNone y = (y = PNone)"
| "py_eq (PStr s) y = (y = PStr s)"
| "py_eq (PDatetime t) y = (y = PDatetime t)"
| "py_eq (PObjectId i) y = (y = PObjectId i)"
| "py_eq (PList xs) (PList ys) = list_all2 py_eq xs ys"
| "py_eq (PList xs) _ = False"
| "py_eq (PDict d) (PDict e) =
     (set (map fst d) = set (map fst e) \<and>
      list_all (\<lambda>(k, v). case map_of e k of None \<Rightarrow> False | Some w \<Rightarrow> py_eq v w) d)"
| "py_eq (PDict d) _ = False"
| "py_eq x y = (case (num_of x, num_of y) of (Some f, Some g) \<Rightarrow> float_eq f g | _ \<Rightarrow> False)"

section \<open>String built-ins\<close>

text \<open>
  \<^verbatim>\<open>str.isspace\<close> on one character, which is also what \<^verbatim>\<open>\s\<close>, \<^verbatim>\<open>split()\<close>, \<^verbatim>\<open>strip()\<close>
  and \<^verbatim>\<open>int()\<close> treat as whitespace: below 256 these are tab to carriage return, the four
  separators 28 to 31, the space, NEL (133) and the no-break space (160).
\<close>

definition is_space :: "char \<Rightarrow> bool" where
  "is_space c = ((of_char c :: nat) \<in> {9, 10, 11, 12, 13, 28, 29, 30, 31, 32, 133, 160})"

definition is_upper :: "char \<Rightarrow> bool" where
  "is_upper c = (65 \<le> (of_char c :: nat) \<and> (of_char c :: nat) \<le> 90)"

definition is_lower :: "char \<Rightarrow> bool" where
  "is_lower c = (97 \<le> (of_char c :: nat) \<and> (of_char c :: nat) \<le> 122)"

definition is_digit :: "char \<Rightarrow> bool" where
  "is_digit c = (48 \<le> (of_char c :: nat) \<and> (of_char c :: nat) \<le> 57)"

text \<open>\<^verbatim>\<open>s.strip()\<close>.\<close>

definition py_strip :: "string \<Rightarrow> string" where
  "py_strip s = rev (dropWhile is_space (rev (dropWhile is_space s)))"

text \<open>\<^verbatim>\<open>s.split()\<close>: the maximal runs of non-whitespace characters.\<close>

fun split_from :: "string \<Rightarrow> string \<Rightarrow> string list" where
  "split_from cur [] = (if cur = [] then [] else [cur])"
| "split_from cur (c # cs) =
     (if is_space c then (if cur = [] then split_from [] cs else cur # split_from [] cs)
      else split_from (cur @ [c]) cs)"

definition py_split :: "string \<Rightarrow> string list" where
  "py_split s = split_from [] s"

text \<open>
  \<^verbatim>\<open>s.upper()\<close>, character by character: the letters a to z and the accented letters
  224 to 254 (but not the division sign 247) move down by 32, and the sharp s (223)
  becomes \<^verbatim>\<open>SS\<close>. The capitals of the micro sign (181) and of y with diaeresis (255) lie
  beyond code point 255, outside these strings; the two characters are kept.
\<close>

definition upper_char :: "char \<Rightarrow> string" where
  "upper_char c =
     (if (97 \<le> (of_char c :: nat) \<and> (of_char c :: nat) \<le> 122)
         \<or> (224 \<le> (of_char c :: nat) \<and> (of_char c :: nat) \<le> 254 \<and> (of_char c :: nat) \<noteq> 247)
      then [char_of ((of_char c :: nat) - 32)]
      else if (of_char c :: nat) = 223 then ''SS''
      else [c])"

definition py_upper :: "string \<Rightarrow> string" where
  "py_upper s = concat (map upper_char s)"

text \<open>
  \<^verbatim>\<open>int(x)\<close>. A string is stripped, may carry one sign, and holds decimal digits with single
  underscores between them, at most 4300 digits; a float is truncated towards zero.
\<close>

fun digits_from :: "nat \<Rightarrow> string \<Rightarrow> nat option" where
  "digits_from acc [] = Some acc"
| "digits_from acc [c] = (if is_digit c then Some (10 * acc + (of_char c - 48)) else None)"
| "digits_from acc (c # d # cs) =
     (if is_digit c then digits_from (10 * acc + (of_char c - 48)) (d # cs)
      else if c = CHR ''_'' \<and> is_digit d then digits_from acc (d # cs)
      else None)"

definition int_of_str :: "string \<Rightarrow> int option" where
  "int_of_str s =
     (case py_strip s of
        [] \<Rightarrow> None
      | c # cs \<Rightarrow>
          (let neg = (c = CHR ''-'');
               ds = (if c = CHR ''-'' \<or> c = CHR ''+'' then cs else c # cs)
           in case ds of
                [] \<Rightarrow> None
              | d # _ \<Rightarrow>
                  if is_digit d \<and> length (filter is_digit ds) \<le> 4300
                  then map_option (\<lambda>n. if neg then - int n else int n) (digits_from 0 ds)
                  else None))"

fun py_int :: "pyval \<Rightarrow> py_error + int" where
  "py_int (PBool b) = Inr (if b then 1 else 0)"
| "py_int (PInt i) = Inr i"
| "py_int (PFloat (Finite q)) = Inr (if 0 \<le> q then \<lfloor>q\<rfloor> else \<lceil>q\<rceil>)"
| "py_int (PFloat NaN) = Inl ValueError"
| "py_int (PFloat PosInf) = Inl OverflowError"
| "py_int (PFloat NegInf) = Inl OverflowError"
| "py_int (PStr s) = (case int_of_str s of None \<Rightarrow> Inl ValueError | Some i \<Rightarrow> Inr i)"
| "py_int _ = Inl TypeError"

section \<open>smart\_merge\<close>

definition protected_fields :: "string list" where
  "protected_fields = [''name'', ''phoneNumber'']"

definition metadata_fields :: "string list" where
  "metadata_fields =
     [''_id'', ''createdAt'', ''updatedAt'', ''platform'', ''specialRequirements'',
      ''is_cancellation'', ''is_amendment'']"

text \<open>
  The greeting filter at the head of \<^verbatim>\<open>smart_merge\<close>: it writes \<^verbatim>\<open>None\<close> into the
  caller's \<^verbatim>\<open>new_data\<close> when the extracted name equals the greeting name.
\<close>

definition filter_greeting :: "doc \<Rightarrow> pyval \<Rightarrow> doc" where
  "filter_greeting new_data greeting_name =
     (if py_eq (dget new_data ''name'') greeting_name
      then dset new_data ''name'' PNone else new_data)"

text \<open>
  The \<^verbatim>\<open>for field, new_value in new_data.items()\<close> loop, threading \<^verbatim>\<open>merged\<close> and
  \<^verbatim>\<open>updated_fields\<close>. \<^verbatim>\<open>new_value.split()\<close> exists on strings only: any other value
  that reaches it raises \<^verbatim>\<open>AttributeError\<close>, which leaves \<^verbatim>\<open>smart_merge\<close>.
\<close>

fun merge_loop :: "doc \<Rightarrow> doc \<Rightarrow> doc \<times> string list \<Rightarrow> py_error + (doc \<times> string list)" where
  "merge_loop existing_booking [] (merged, updated_fields) = Inr (merged, updated_fields)"
| "merge_loop existing_booking ((field, new_value) # rest) (merged, updated_fields) =
     (if field \<in> set metadata_fields then
        merge_loop existing_booking rest (merged, updated_fields)
      else if new_value = PNone \<or> py_eq new_value (PStr []) then
        merge_loop existing_booking rest (merged, updated_fields)
      else if field \<in> set protected_fields then
        (if truthy new_value \<and> \<not> py_eq new_value (dget existing_booking field) then
           (if field = ''name'' then
              (case new_value of
                 PStr s \<Rightarrow>
                   if length (py_split s) < 2 then
                     merge_loop existing_booking rest (merged, updated_fields)
                   else
                     merge_loop existing_booking rest
                       (dset merged field new_value, updated_fields @ [field])
               | _ \<Rightarrow> Inl AttributeError)
            else
              merge_loop existing_booking rest
                (dset merged field new_value, updated_fields @ [field]))
         else merge_loop existing_booking rest (merged, updated_fields))
      else
        (if \<not> py_eq new_value (dget existing_booking field) then
           merge_loop existing_booking rest
             (dset merged field new_value, updated_fields @ [field])
         else merge_loop existing_booking rest (merged, updated_fields)))"

text \<open>
  \<^verbatim>\<open>smart_merge(existing_booking, new_data, greeting_name)\<close> on values; \<open>now\<close> is the
  clock reading \<^verbatim>\<open>datetime.now(UTC)\<close>. The result is \<^verbatim>\<open>(merged, updated_fields)\<close>.
\<close>

definition smart_merge :: "doc \<Rightarrow> doc \<Rightarrow> pyval \<Rightarrow> nat \<Rightarrow> py_error + (doc \<times> string list)" where
  "smart_merge existing_booking new_data greeting_name now =
     (case merge_loop existing_booking (filter_greeting new_data greeting_name)
             (existing_booking, []) of
        Inl e \<Rightarrow> Inl e
      | Inr (merged, updated_fields) \<Rightarrow>
          Inr (dset merged ''updatedAt'' (PDatetime now), updated_fields))"

text \<open>
  The same function on a store of dict objects, for what it does to its arguments:
  \<open>h\<close> holds the objects, \<open>e\<close> and \<open>n\<close> are the addresses of \<^verbatim>\<open>existing_booking\<close> and
  \<^verbatim>\<open>new_data\<close>. \<^verbatim>\<open>existing_booking.copy()\<close> allocates \<^verbatim>\<open>merged\<close> at the next free
  address. The loop runs over the items of \<^verbatim>\<open>new_data\<close> as they are when it starts; only
  \<^verbatim>\<open>merged\<close> is written while it runs.
\<close>

type_synonym heap = "doc list"

fun merge_loop_h :: "nat \<Rightarrow> nat \<Rightarrow> doc \<Rightarrow> heap \<times> string list \<Rightarrow> heap \<times> (py_error + string list)" where
  "merge_loop_h e m [] (h, updated_fields) = (h, Inr updated_fields)"
| "merge_loop_h e m ((field, new_value) # rest) (h, updated_fields) =
     (if field \<in> set metadata_fields then merge_loop_h e m rest (h, updated_fields)
      else if new_value = PNone \<or> py_eq new_value (PStr []) then
        merge_loop_h e m rest (h, updated_fields)
      else if field \<in> set protected_fields then
        (if truthy new_value \<and> \<not> py_eq new_value (dget (h ! e) field) then
           (if field = ''name'' then
              (case new_value of
                 PStr s \<Rightarrow>
                   if length (py_split s) < 2 then merge_loop_h e m rest (h, updated_fields)
                   else
                     merge_loop_h e m rest
                       (h[m := dset (h ! m) field new_value], updated_fields @ [field])
               | _ \<Rightarrow> (h, Inl AttributeError))
            else
              merge_loop_h e m rest
                (h[m := dset (h ! m) field new_value], updated_fields @ [field]))
         else merge_loop_h e m rest (h, updated_fields))
      else
        (if \<not> py_eq new_value (dget (h ! e) field) then
           merge_loop_h e m rest
             (h[m := dset (h ! m) field new_value], updated_fields @ [field])
         else merge_loop_h e m rest (h, updated_fields)))"

definition smart_merge_h ::
  "heap \<Rightarrow> nat \<Rightarrow> nat \<Rightarrow> pyval \<Rightarrow> nat \<Rightarrow> heap \<times> (py_error + (nat \<times> string list))" where
  "smart_merge_h h e n greeting_name now =
     (let m = length h;
          h1 = h @ [h ! e];
          h2 = (if py_eq (dget (h1 ! n) ''name'') greeting_name
                then h1[n := dset (h1 ! n) ''name'' PNone] else h1)
      in case merge_loop_h e m (h2 ! n) (h2, []) of
           (h3, Inl err) \<Rightarrow> (h3, Inl err)
         | (h3, Inr updated_fields) \<Rightarrow>
             (h3[m := dset (h3 ! m) ''updatedAt'' (PDatetime now)], Inr (m, updated_fields)))"

section \<open>build\_doc\<close>

text \<open>
  \<^verbatim>\<open>data["booking_reference"]\<close> raises \<^verbatim>\<open>KeyError\<close> on a missing key; every other field is
  read with \<^verbatim>\<open>get\<close>. \<open>now\<close> is the clock reading taken in \<^verbatim>\<open>build_doc\<close>.
\<close>

definition build_doc :: "doc \<Rightarrow> nat \<Rightarrow> py_error + doc" where
  "build_doc data now =
     (case map_of data ''booking_reference'' of
        None \<Rightarrow> Inl KeyError
      | Some r \<Rightarrow>
          Inr [(''name'', dget data ''name''),
               (''vehicleType'',
                  if truthy (dget data ''vehicleType'') then dget data ''vehicleType''
                  else PStr ''Unknown''),
               (''address'', dget data ''address''),
               (''phoneNumber'', dget data ''phoneNumber''),
               (''tour'', dget data ''tour''),
               (''tourDate'', dget data ''tourDate''),
               (''tourTime'', dget data ''tourTime''),
               (''totalPassengers'', dget data ''totalPassengers''),
               (''specialRequirements'', PStr ''No''),
               (''booking_reference'', r),
               (''platform'', PStr ''GYG''),
               (''updatedAt'', PDatetime now)])"

section \<open>The bookings collection\<close>

text \<open>
  What the collection keeps of a value written to it, as the driver encodes it: an
  integer must fit 64 bits (\<^verbatim>\<open>OverflowError\<close> otherwise), a \<^verbatim>\<open>datetime\<close> is kept to the
  millisecond, a key may not contain the NUL character (\<^verbatim>\<open>InvalidDocument\<close>), and lists and
  embedded documents are encoded item by item. Everything else is kept as it is.
\<close>

definition has_nul :: "string \<Rightarrow> bool" where
  "has_nul k = (\<exists>c \<in> set k. (of_char c :: nat) = 0)"

fun bson_val :: "pyval \<Rightarrow> py_error + pyval"
  and bson_list :: "pyval list \<Rightarrow> py_error + pyval list"
  and bson_doc :: "doc \<Rightarrow> py_error + doc" where
  "bson_val (PInt i) =
     (if - (2 ^ 63) \<le> i \<and> i < 2 ^ 63 then Inr (PInt i) else Inl OverflowError)"
| "bson_val (PDatetime t) = Inr (PDatetime (t div 1000 * 1000))"
| "bson_val (PList xs) = (case bson_list xs of Inl e \<Rightarrow> Inl e | Inr ys \<Rightarrow> Inr (PList ys))"
| "bson_val (PDict d) = (case bson_doc d of Inl e \<Rightarrow> Inl e | Inr d' \<Rightarrow> Inr (PDict d'))"
| "bson_val PNone = Inr PNone"
| "bson_val (PBool b) = Inr (PBool b)"
| "bson_val (PFloat f) = Inr (PFloat f)"
| "bson_val (PStr s) = Inr (PStr s)"
| "bson_val (PObjectId i) = Inr (PObjectId i)"
| "bson_list [] = Inr []"
| "bson_list (x # xs) =
     (case bson_val x of
        Inl e \<Rightarrow> Inl e
      | Inr y \<Rightarrow> (case bson_list xs of Inl e \<Rightarrow> Inl e | Inr ys \<Rightarrow> Inr (y # ys)))"
| "bson_doc [] = Inr []"
| "bson_doc ((k, v) # rest) =
     (if has_nul k then Inl InvalidDocument
      else case bson_val v of
             Inl e \<Rightarrow> Inl e
           | Inr w \<Rightarrow> (case bson_doc rest of Inl e \<Rightarrow> Inl e | Inr ws \<Rightarrow> Inr ((k, w) # ws)))"

text \<open>The values \<^verbatim>\<open>json.loads\<close> can return: no \<^verbatim>\<open>datetime\<close> and no \<^verbatim>\<open>ObjectId\<close> inside.\<close>

fun is_json :: "pyval \<Rightarrow> bool" where
  "is_json (PDatetime t) = False"
| "is_json (PObjectId i) = False"
| "is_json (PList xs) = list_all is_json xs"
| "is_json (PDict d) = list_all (\<lambda>(k, v). is_json v) d"
| "is_json _ = True"

text \<open>
  The collection is the list of its documents. A filter \<^verbatim>\<open>{"booking_reference": ref}\<close>
  selects the documents whose field holds \<open>ref\<close> (a string on every path from the
  parsers); the \<^verbatim>\<open>*_one\<close> operations act on the first of them. \<^verbatim>\<open>insert_one\<close> gives the
  document an \<^verbatim>\<open>_id\<close> when it has none, \<open>oid\<close> being the identifier generated for it, and
  stores the encoded document; an encoding error leaves the call as an exception.
  \<^verbatim>\<open>update_one\<close> with \<^verbatim>\<open>{"$set": fields}\<close> encodes \<open>fields\<close> and sets each of them on the
  document; the field names are taken as plain names (a name with a dot, which the server
  reads as a path into an embedded document, is outside this model).
\<close>

type_synonym store = "doc list"

definition has_ref :: "pyval \<Rightarrow> doc \<Rightarrow> bool" where
  "has_ref ref d = (map_of d ''booking_reference'' = Some ref)"

definition find_one :: "store \<Rightarrow> pyval \<Rightarrow> doc option" where
  "find_one st ref = find (has_ref ref) st"

fun delete_one :: "store \<Rightarrow> pyval \<Rightarrow> store" where
  "delete_one [] ref = []"
| "delete_one (d # ds) ref = (if has_ref ref d then ds else d # delete_one ds ref)"

definition mongo_set :: "doc \<Rightarrow> doc \<Rightarrow> doc" where
  "mongo_set d fields = fold (\<lambda>(k, v) acc. dset acc k v) fields d"

fun set_first :: "store \<Rightarrow> pyval \<Rightarrow> doc \<Rightarrow> store" where
  "set_first [] ref fields = []"
| "set_first (d # ds) ref fields =
     (if has_ref ref d then mongo_set d fields # ds else d # set_first ds ref fields)"

definition update_one :: "store \<Rightarrow> pyval \<Rightarrow> doc \<Rightarrow> py_error + store" where
  "update_one st ref fields =
     (case bson_doc fields of
        Inl err \<Rightarrow> Inl err
      | Inr encoded \<Rightarrow> Inr (set_first st ref encoded))"

definition insert_one :: "store \<Rightarrow> doc \<Rightarrow> nat \<Rightarrow> py_error + store" where
  "insert_one st d oid =
     (case bson_doc (if map_of d ''_id'' = None then dset d ''_id'' (PObjectId oid) else d) of
        Inl err \<Rightarrow> Inl err
      | Inr encoded \<Rightarrow> Inr (st @ [encoded]))"

section \<open>One pass of the loop in main\<close>

record counters =
  processed :: nat
  saved :: nat
  updated :: nat
  cancelled :: nat
  duplicates :: nat
  errors :: nat

text \<open>The counters as \<^verbatim>\<open>main\<close> initialises them before the loop.\<close>

definition initial_counters :: counters where
  "initial_counters =
     \<lparr>processed = 0, saved = 0, updated = 0, cancelled = 0, duplicates = 0, errors = 0\<rparr>"

text \<open>What the pass reports: one constructor per message printed by \<^verbatim>\<open>main\<close>.\<close>

datatype outcome =
    ParseFailed
  | Cancelled
  | CancelNotFound
  | CancelNoRef
  | SkippedNoRef
  | Amended "string list"
  | Duplicate
  | NewBooking
  | Errored

text \<open>
  The display lines of the insert branch slice the tour and the address:
  \<^verbatim>\<open>doc['tour'][:45] + "..." if len(doc.get('tour', '')) > 45 else doc.get('tour', '')\<close>,
  guarded by \<^verbatim>\<open>if doc.get('tour')\<close>. \<^verbatim>\<open>len\<close> raises on a number, and slicing followed by
  \<^verbatim>\<open>+ "..."\<close> raises on a list or dict of more than 45 entries.
\<close>

definition display_raises :: "pyval \<Rightarrow> bool" where
  "display_raises v =
     (truthy v \<and>
      (case v of
         PStr s \<Rightarrow> False
       | PList xs \<Rightarrow> 45 < length xs
       | PDict d \<Rightarrow> 45 < length d
       | _ \<Rightarrow> True))"

text \<open>
  The body of the \<^verbatim>\<open>for\<close> loop of \<^verbatim>\<open>main\<close> from \<^verbatim>\<open>if not parsed\<close> on. \<open>parsed\<close> is what
  \<^verbatim>\<open>parse_with_ai\<close> returned (\<open>None\<close> for \<^verbatim>\<open>None\<close>), \<open>is_amendment\<close> and \<open>greeting_name\<close>
  what \<^verbatim>\<open>detect_amendment\<close> and \<^verbatim>\<open>extract_greeting_name\<close> returned; \<open>now\<close> is the clock
  reading inside \<^verbatim>\<open>smart_merge\<close> or \<^verbatim>\<open>build_doc\<close>, \<open>now2\<close> the one taken for
  \<^verbatim>\<open>createdAt\<close>. An exception anywhere in the body, the calls to the collection
  included, is caught by the loop's handler, which counts an error. A document found by \<^verbatim>\<open>find_one\<close> holds the key it was found by, so it
  is a non-empty dict and passes \<^verbatim>\<open>if existing\<close>.
\<close>

definition main_body ::
  "store \<Rightarrow> counters \<Rightarrow> bool \<Rightarrow> pyval \<Rightarrow> nat \<Rightarrow> nat \<Rightarrow> nat \<Rightarrow> doc option
     \<Rightarrow> store \<times> counters \<times> outcome" where
  "main_body st c is_amendment greeting_name now now2 oid parsed_opt =
     (case parsed_opt of
        None \<Rightarrow> (st, c\<lparr>errors := errors c + 1\<rparr>, ParseFailed)
      | Some parsed \<Rightarrow>
          if parsed = [] then (st, c\<lparr>errors := errors c + 1\<rparr>, ParseFailed)
          else if truthy (dget parsed ''is_cancellation'') then
            (let booking_ref = dget parsed ''booking_reference'' in
             if truthy booking_ref then
               (case find_one st booking_ref of
                  Some existing \<Rightarrow>
                    (delete_one st booking_ref,
                     c\<lparr>cancelled := cancelled c + 1, processed := processed c + 1\<rparr>,
                     Cancelled)
                | None \<Rightarrow> (st, c\<lparr>processed := processed c + 1\<rparr>, CancelNotFound))
             else (st, c\<lparr>processed := processed c + 1\<rparr>, CancelNoRef))
          else if \<not> truthy (dget parsed ''booking_reference'') then (st, c, SkippedNoRef)
          else
            (let booking_ref = dget parsed ''booking_reference'';
                 existing_booking = find_one st booking_ref
             in if existing_booking \<noteq> None \<and>
                   (is_amendment \<or> dget parsed ''name'' = PNone
                    \<or> dget parsed ''phoneNumber'' = PNone)
                then
                  (case smart_merge (the existing_booking) parsed greeting_name now of
                     Inl err \<Rightarrow> (st, c\<lparr>errors := errors c + 1\<rparr>, Errored)
                   | Inr (merged_doc, updated_fields) \<Rightarrow>
                       if updated_fields \<noteq> [] then
                         (case update_one st booking_ref merged_doc of
                            Inl err \<Rightarrow> (st, c\<lparr>errors := errors c + 1\<rparr>, Errored)
                          | Inr st' \<Rightarrow>
                              (st', c\<lparr>updated := updated c + 1, processed := processed c + 1\<rparr>,
                               Amended updated_fields))
                       else
                         (st, c\<lparr>duplicates := duplicates c + 1, processed := processed c + 1\<rparr>,
                          Duplicate))
                else
                  (case build_doc parsed now of
                     Inl err \<Rightarrow> (st, c\<lparr>errors := errors c + 1\<rparr>, Errored)
                   | Inr doc \<Rightarrow>
                       if display_raises (dget doc ''tour'') \<or> display_raises (dget doc ''address'')
                       then (st, c\<lparr>errors := errors c + 1\<rparr>, Errored)
                       else
                         (case insert_one st (dset doc ''createdAt'' (PDatetime now2)) oid of
                            Inl err \<Rightarrow> (st, c\<lparr>errors := errors c + 1\<rparr>, Errored)
                          | Inr st' \<Rightarrow>
                              (st', c\<lparr>saved := saved c + 1, processed := processed c + 1\<rparr>,
                               NewBooking)))))"

section \<open>The parsers, from the decoded response on\<close>

text \<open>
  Both parsers end the same way: \<^verbatim>\<open>parsed = json.loads(response_text)\<close>, a clean-up of
  two fields, \<^verbatim>\<open>return parsed\<close>, all inside a \<^verbatim>\<open>try\<close> whose handler returns \<^verbatim>\<open>None\<close>.
  The functions below take the decoded value. \<^verbatim>\<open>parsed.get\<close> exists on a dict only, and
  \<^verbatim>\<open>.upper()\<close> on a string only.
\<close>

definition upper_reference :: "doc \<Rightarrow> py_error + doc" where
  "upper_reference parsed =
     (if truthy (dget parsed ''booking_reference'') then
        (case dget parsed ''booking_reference'' of
           PStr s \<Rightarrow> Inr (dset parsed ''booking_reference'' (PStr (py_upper s)))
         | _ \<Rightarrow> Inl AttributeError)
      else Inr parsed)"

text \<open>\<^verbatim>\<open>parse_with_g4f\<close>: the conversion of the passenger count has a \<^verbatim>\<open>try\<close> of its own.\<close>

definition parse_with_g4f :: "pyval \<Rightarrow> doc option" where
  "parse_with_g4f response =
     (case response of
        PDict parsed \<Rightarrow>
          (case upper_reference parsed of
             Inl err \<Rightarrow> None
           | Inr p \<Rightarrow>
               if truthy (dget p ''totalPassengers'') then
                 (case py_int (dget p ''totalPassengers'') of
                    Inl err \<Rightarrow> Some (dset p ''totalPassengers'' PNone)
                  | Inr i \<Rightarrow> Some (dset p ''totalPassengers'' (PInt i)))
               else Some p)
      | _ \<Rightarrow> None)"

text \<open>\<^verbatim>\<open>parse_with_huggingface\<close>: the conversion is not guarded.\<close>

definition parse_with_huggingface :: "pyval \<Rightarrow> doc option" where
  "parse_with_huggingface response =
     (case response of
        PDict parsed \<Rightarrow>
          (case upper_reference parsed of
             Inl err \<Rightarrow> None
           | Inr p \<Rightarrow>
               if truthy (dget p ''totalPassengers'') then
                 (case py_int (dget p ''totalPassengers'') of
                    Inl err \<Rightarrow> None
                  | Inr i \<Rightarrow> Some (dset p ''totalPassengers'' (PInt i)))
               else Some p)
      | _ \<Rightarrow> None)"

text \<open>
  \<^verbatim>\<open>parse_with_ai\<close>: \<open>g4f_json\<close> and \<open>hf_json\<close> are the decoded responses of the two
  services, \<open>None\<close> when the call or the decoding raised. An empty dict is falsy and
  counts as no result.
\<close>

definition parse_with_ai :: "bool \<Rightarrow> pyval option \<Rightarrow> pyval option \<Rightarrow> doc option" where
  "parse_with_ai use_g4f g4f_json hf_json =
     (let p1 = (if use_g4f then Option.bind g4f_json parse_with_g4f else None) in
      if p1 \<noteq> None \<and> p1 \<noteq> Some [] then p1
      else
        (let p2 = Option.bind hf_json parse_with_huggingface in
         if p2 \<noteq> None \<and> p2 \<noteq> Some [] then p2 else None))"

section \<open>extract\_greeting\_name\<close>

text \<open>
  The two patterns are matched as \<^verbatim>\<open>re.search\<close> does: at the leftmost position where the
  pattern fits, alternatives in the order written, quantifiers greedy. In these patterns
  a greedy run is always followed by a character outside the run's class (or by the end
  of the pattern), so giving back part of a run never turns a failure into a match, and
  the first match is the one computed here.

  \<open>match_spaces\<close> is \<^verbatim>\<open>\s+\<close>, \<open>match_word\<close> is \<^verbatim>\<open>[A-Z][a-z]+\<close>; both give the matched
  text and the rest.
\<close>

definition match_spaces :: "string \<Rightarrow> (string \<times> string) option" where
  "match_spaces xs =
     (if takeWhile is_space xs = [] then None
      else Some (takeWhile is_space xs, dropWhile is_space xs))"

definition match_word :: "string \<Rightarrow> (string \<times> string) option" where
  "match_word xs =
     (case xs of
        [] \<Rightarrow> None
      | c # cs \<Rightarrow>
          if is_upper c \<and> takeWhile is_lower cs \<noteq> []
          then Some (c # takeWhile is_lower cs, dropWhile is_lower cs)
          else None)"

text \<open>The group \<^verbatim>\<open>([A-Z][a-z]+(?:\s+[A-Z][a-z]+)?)\<close>: the captured text.\<close>

definition match_name :: "string \<Rightarrow> string option" where
  "match_name xs =
     (case match_word xs of
        None \<Rightarrow> None
      | Some (w1, r1) \<Rightarrow>
          (case match_spaces r1 of
             None \<Rightarrow> Some w1
           | Some (ws, r2) \<Rightarrow>
               (case match_word r2 of
                  None \<Rightarrow> Some w1
                | Some (w2, r3) \<Rightarrow> Some (w1 @ ws @ w2))))"

text \<open>A literal, then \<^verbatim>\<open>\s+\<close>, then the group.\<close>

definition match_after :: "string \<Rightarrow> string \<Rightarrow> string option" where
  "match_after lit xs =
     (if prefix lit xs then
        (case match_spaces (drop (length lit) xs) of
           None \<Rightarrow> None
         | Some (ws, r) \<Rightarrow> match_name r)
      else None)"

fun first_match :: "string list \<Rightarrow> string \<Rightarrow> string option" where
  "first_match [] xs = None"
| "first_match (lit # lits) xs =
     (case match_after lit xs of None \<Rightarrow> first_match lits xs | Some n \<Rightarrow> Some n)"

text \<open>\<^verbatim>\<open>(?:Hi|Hello|Dear|Hey)\s+(...)\<close> at the head of \<open>xs\<close>.\<close>

definition match_greeting1 :: "string \<Rightarrow> string option" where
  "match_greeting1 xs = first_match [''Hi'', ''Hello'', ''Dear'', ''Hey''] xs"

text \<open>\<^verbatim>\<open>(?:Good\s+(?:morning|afternoon|evening))\s+(...)\<close> at the head of \<open>xs\<close>.\<close>

definition match_greeting2 :: "string \<Rightarrow> string option" where
  "match_greeting2 xs =
     (if prefix ''Good'' xs then
        (case match_spaces (drop 4 xs) of
           None \<Rightarrow> None
         | Some (ws, r) \<Rightarrow> first_match [''morning'', ''afternoon'', ''evening''] r)
      else None)"

text \<open>\<^verbatim>\<open>re.search\<close>: the match at the leftmost position that has one.\<close>

fun re_search :: "(string \<Rightarrow> string option) \<Rightarrow> string \<Rightarrow> string option" where
  "re_search m [] = m []"
| "re_search m (c # cs) = (case m (c # cs) of None \<Rightarrow> re_search m cs | Some n \<Rightarrow> Some n)"

definition extract_greeting_name :: "string \<Rightarrow> string option" where
  "extract_greeting_name email_content =
     (case re_search match_greeting1 (take 500 email_content) of
        Some n \<Rightarrow> Some (py_strip n)
      | None \<Rightarrow>
          (case re_search match_greeting2 (take 500 email_content) of
             Some n \<Rightarrow> Some (py_strip n)
           | None \<Rightarrow> None))"

text \<open>The greeting name as the Python value handed to \<^verbatim>\<open>smart_merge\<close>.\<close>

definition greeting_val :: "string option \<Rightarrow> pyval" where
  "greeting_val g = (case g of None \<Rightarrow> PNone | Some s \<Rightarrow> PStr s)"

subsection \<open>What the description of the filter says\<close>

text \<open>
  Stated from the words of the description, for comparison with the function above:
  a salutation word (Hi, Hello, Dear, Hey, or Good followed by morning, afternoon or
  evening), whitespace, then one or two capitalised words.
\<close>

definition spec_cap_word :: "string \<Rightarrow> bool" where
  "spec_cap_word w =
     (case w of [] \<Rightarrow> False | c # cs \<Rightarrow> is_upper c \<and> cs \<noteq> [] \<and> list_all is_lower cs)"

definition spec_spaces :: "string \<Rightarrow> bool" where
  "spec_spaces ws = (ws \<noteq> [] \<and> list_all is_space ws)"

definition spec_name :: "string \<Rightarrow> bool" where
  "spec_name n =
     (spec_cap_word n \<or>
      (\<exists>w1 ws w2. n = w1 @ ws @ w2 \<and> spec_cap_word w1 \<and> spec_spaces ws \<and> spec_cap_word w2))"

definition spec_salutation :: "string \<Rightarrow> bool" where
  "spec_salutation s =
     (s \<in> set [''Hi'', ''Hello'', ''Dear'', ''Hey''] \<or>
      (\<exists>ws t. s = ''Good'' @ ws @ t \<and> spec_spaces ws
         \<and> t \<in> set [''morning'', ''afternoon'', ''evening'']))"

definition spec_greets :: "string \<Rightarrow> string \<Rightarrow> bool" where
  "spec_greets p n =
     (\<exists>pre sal ws post.
        p = pre @ sal @ ws @ n @ post \<and> spec_salutation sal \<and> spec_spaces ws \<and> spec_name n)"

text \<open>
  Which name that is, as the two patterns fix it. A word is taken whole, up to the first
  character that is not a lower-case letter. The capture at the head of a text is one such
  word, together with a second one when whitespace and a capitalised word follow. A match
  is a salutation, whitespace and the capture; the first match is the one that starts
  leftmost; and a match of the first pattern (Hi, Hello, Dear, Hey), wherever it stands,
  goes before any match of the second (Good morning, afternoon, evening).
\<close>

definition spec_hi :: "string \<Rightarrow> bool" where
  "spec_hi s = (s \<in> set [''Hi'', ''Hello'', ''Dear'', ''Hey''])"

definition spec_good :: "string \<Rightarrow> bool" where
  "spec_good s =
     (\<exists>ws t. s = ''Good'' @ ws @ t \<and> spec_spaces ws
        \<and> t \<in> set [''morning'', ''afternoon'', ''evening''])"

definition spec_word_at :: "string \<Rightarrow> string \<Rightarrow> string \<Rightarrow> bool" where
  "spec_word_at xs w r = (xs = w @ r \<and> spec_cap_word w \<and> (r = [] \<or> \<not> is_lower (hd r)))"

definition spec_capture :: "string \<Rightarrow> string \<Rightarrow> bool" where
  "spec_capture xs n =
     (\<exists>w1 r1. spec_word_at xs w1 r1 \<and>
        ((\<exists>ws w2 r2. r1 = ws @ w2 @ r2 \<and> spec_spaces ws \<and> spec_word_at (w2 @ r2) w2 r2
            \<and> n = w1 @ ws @ w2)
         \<or> (\<not> (\<exists>ws w2 r2. r1 = ws @ w2 @ r2 \<and> spec_spaces ws \<and> spec_cap_word w2)
              \<and> n = w1)))"

definition spec_match :: "(string \<Rightarrow> bool) \<Rightarrow> string \<Rightarrow> string \<Rightarrow> bool" where
  "spec_match sal t n =
     (\<exists>s ws rest. t = s @ ws @ rest \<and> sal s \<and> spec_spaces ws \<and> spec_capture rest n)"

definition spec_first :: "(string \<Rightarrow> bool) \<Rightarrow> string \<Rightarrow> string \<Rightarrow> bool" where
  "spec_first sal p n =
     (\<exists>pre t. p = pre @ t \<and> spec_match sal t n
        \<and> (\<forall>pre' t'. p = pre' @ t' \<and> length pre' < length pre
              \<longrightarrow> (\<forall>n'. \<not> spec_match sal t' n')))"

definition spec_greeting_name :: "string \<Rightarrow> string \<Rightarrow> bool" where
  "spec_greeting_name p n =
     (spec_first spec_hi p n
      \<or> ((\<forall>n'. \<not> spec_first spec_hi p n') \<and> spec_first spec_good p n))"

subsection \<open>What the description of the merge says\<close>

text \<open>
  Stated from the words of the description: a candidate value is present when it is
  neither null nor the empty string; a present value is accepted for a field when it
  differs from the stored one and, for the name, has at least two tokens.
\<close>

definition spec_present :: "pyval \<Rightarrow> bool" where
  "spec_present v = (v \<noteq> PNone \<and> v \<noteq> PStr [])"

definition spec_accepts :: "doc \<Rightarrow> string \<Rightarrow> pyval \<Rightarrow> bool" where
  "spec_accepts existing field v =
     (spec_present v \<and> \<not> py_eq v (dget existing field) \<and>
      (field = ''name'' \<longrightarrow> (\<exists>s. v = PStr s \<and> 2 \<le> length (py_split s))))"

section \<open>Properties of dicts and of the merge loop\<close>

lemma dget_dset: "dget (dset d k v) k' = (if k' = k then v else dget d k')"
  by (simp add: dget_def dset_def update_conv')

lemma is_dict_dset: "is_dict d \<Longrightarrow> is_dict (dset d k v)"
  by (simp add: is_dict_def dset_def distinct_update)

lemma dget_member: "is_dict d \<Longrightarrow> (k, v) \<in> set d \<Longrightarrow> dget d k = v"
  by (simp add: is_dict_def dget_def)

lemma py_eq_PStr_right: "py_eq v (PStr s) = (v = PStr s)"
  by (cases v) (auto split: option.splits)

lemma py_eq_PNone_right: "py_eq v PNone = (v = PNone)"
  by (cases v) (auto split: option.splits)

lemma set_dset: "(k', v') \<in> set (dset d k v) \<Longrightarrow> (k', v') \<in> set d \<or> (k' = k \<and> v' = v)"
  unfolding dset_def by (induction d) (auto split: if_splits)

text \<open>The loop only ever appends to the change-set.\<close>

lemma merge_loop_mono:
  "merge_loop ex items (m, u) = Inr (m', u') \<Longrightarrow> set u \<subseteq> set u'"
proof (induction items arbitrary: m u)
  case Nil
  then show ?case by simp
next
  case (Cons it items)
  obtain f v where it: "it = (f, v)" by (cases it)
  from Cons.prems show ?case
    unfolding it
    by (auto split: if_splits pyval.splits dest!: Cons.IH)
qed

lemma merge_loop_frame:
  "merge_loop ex items (m, u) = Inr (m', u') \<Longrightarrow> k \<notin> set u' \<Longrightarrow> dget m' k = dget m k"
proof (induction items arbitrary: m u)
  case Nil
  then show ?case by simp
next
  case (Cons it items)
  obtain f v where it: "it = (f, v)" by (cases it)
  show ?case
  proof (cases "merge_loop ex items (m, u) = Inr (m', u')")
    case True
    then show ?thesis using Cons.IH Cons.prems(2) by blast
  next
    case False
    with Cons.prems(1) have step: "merge_loop ex items (dset m f v, u @ [f]) = Inr (m', u')"
      unfolding it by (auto split: if_splits pyval.splits)
    from merge_loop_mono[OF step] Cons.prems(2) have "k \<noteq> f" by auto
    with Cons.IH[OF step Cons.prems(2)] show ?thesis by (simp add: dget_dset)
  qed
qed

lemma merge_loop_changed:
  "merge_loop ex items (m, u) = Inr (m', u') \<Longrightarrow> dget m' k \<noteq> dget m k \<Longrightarrow>
     \<exists>v. (k, v) \<in> set items \<and> dget m' k = v \<and> spec_accepts ex k v
         \<and> k \<notin> set metadata_fields \<and> (k \<in> set protected_fields \<longrightarrow> truthy v)"
proof (induction items arbitrary: m u)
  case Nil
  then show ?case by simp
next
  case (Cons it items)
  obtain f v where it: "it = (f, v)" by (cases it)
  show ?case
  proof (cases "merge_loop ex items (m, u) = Inr (m', u')")
    case True
    from Cons.IH[OF True Cons.prems(2)] show ?thesis by auto
  next
    case False
    with Cons.prems(1) have step: "merge_loop ex items (dset m f v, u @ [f]) = Inr (m', u')"
      and acc: "spec_accepts ex f v \<and> f \<notin> set metadata_fields \<and> (f \<in> set protected_fields \<longrightarrow> truthy v)"
      unfolding it
      by (auto simp: spec_accepts_def spec_present_def py_eq_PStr_right protected_fields_def
          split: if_splits pyval.splits)
    show ?thesis
    proof (cases "dget m' k = dget (dset m f v) k")
      case True
      with Cons.prems(2) have "k = f" "dget m' k = v" by (auto simp: dget_dset split: if_splits)
      with acc show ?thesis unfolding it by auto
    next
      case False
      from Cons.IH[OF step False] show ?thesis by auto
    qed
  qed
qed

lemma merge_loop_listed:
  "merge_loop ex items (m, u) = Inr (m', u') \<Longrightarrow> k \<in> set u' \<Longrightarrow> k \<notin> set u \<Longrightarrow>
     \<exists>v. (k, v) \<in> set items \<and> spec_accepts ex k v
         \<and> k \<notin> set metadata_fields \<and> (k \<in> set protected_fields \<longrightarrow> truthy v)"
proof (induction items arbitrary: m u)
  case Nil
  then show ?case by simp
next
  case (Cons it items)
  obtain f v where it: "it = (f, v)" by (cases it)
  show ?case
  proof (cases "merge_loop ex items (m, u) = Inr (m', u')")
    case True
    from Cons.IH[OF True Cons.prems(2,3)] show ?thesis by auto
  next
    case False
    with Cons.prems(1) have step: "merge_loop ex items (dset m f v, u @ [f]) = Inr (m', u')"
      and acc: "spec_accepts ex f v \<and> f \<notin> set metadata_fields \<and> (f \<in> set protected_fields \<longrightarrow> truthy v)"
      unfolding it
      by (auto simp: spec_accepts_def spec_present_def py_eq_PStr_right protected_fields_def
          split: if_splits pyval.splits)
    show ?thesis
    proof (cases "k = f")
      case True
      with acc show ?thesis unfolding it by auto
    next
      case False
      with Cons.prems(3) have "k \<notin> set (u @ [f])" by simp
      from Cons.IH[OF step Cons.prems(2) this] show ?thesis by auto
    qed
  qed
qed

text \<open>With distinct keys, a listed field holds the candidate's value.\<close>

lemma merge_loop_listed_value:
  "merge_loop ex items (m, u) = Inr (m', u') \<Longrightarrow> distinct (map fst items) \<Longrightarrow>
     (k, v) \<in> set items \<Longrightarrow> k \<in> set u' \<Longrightarrow> k \<notin> set u \<Longrightarrow> dget m' k = v"
proof (induction items arbitrary: m u)
  case Nil
  then show ?case by simp
next
  case (Cons it items)
  obtain f w where it: "it = (f, w)" by (cases it)
  show ?case
  proof (cases "k = f")
    case True
    with Cons.prems(2,3) have vw: "v = w" and notin: "\<forall>x. (k, x) \<notin> set items"
      unfolding it by (auto simp: rev_image_eqI)
    have nostep: "merge_loop ex items (m, u) \<noteq> Inr (m', u')"
    proof
      assume a: "merge_loop ex items (m, u) = Inr (m', u')"
      from merge_loop_listed[OF a Cons.prems(4,5)] notin show False by blast
    qed
    with Cons.prems(1) have step: "merge_loop ex items (dset m f w, u @ [f]) = Inr (m', u')"
      unfolding it by (auto split: if_splits pyval.splits)
    have "dget m' k = dget (dset m f w) k"
    proof (rule ccontr)
      assume "dget m' k \<noteq> dget (dset m f w) k"
      from merge_loop_changed[OF step this] notin show False by blast
    qed
    with True vw show ?thesis by (simp add: dget_dset)
  next
    case False
    with Cons.prems(3) have mem: "(k, v) \<in> set items" unfolding it by auto
    from Cons.prems(2) have d: "distinct (map fst items)" by simp
    show ?thesis
    proof (cases "merge_loop ex items (m, u) = Inr (m', u')")
      case True
      from Cons.IH[OF True d mem Cons.prems(4,5)] show ?thesis .
    next
      case False2: False
      with Cons.prems(1) have step: "merge_loop ex items (dset m f w, u @ [f]) = Inr (m', u')"
        unfolding it by (auto split: if_splits pyval.splits)
      from False Cons.prems(5) have "k \<notin> set (u @ [f])" by simp
      from Cons.IH[OF step d mem Cons.prems(4) this] show ?thesis .
    qed
  qed
qed

lemma merge_loop_raises:
  "merge_loop ex items (m, u) = Inl err \<Longrightarrow>
     err = AttributeError \<and> (\<exists>v. (''name'', v) \<in> set items \<and> truthy v \<and> (\<forall>s. v \<noteq> PStr s))"
proof (induction items arbitrary: m u)
  case Nil
  then show ?case by simp
next
  case (Cons it items)
  obtain f v where it: "it = (f, v)" by (cases it)
  from Cons.prems show ?case
    unfolding it
    by (auto split: if_splits pyval.splits dest!: Cons.IH)
qed

lemma is_dict_filter_greeting: "is_dict d \<Longrightarrow> is_dict (filter_greeting d g)"
  by (simp add: filter_greeting_def is_dict_dset)

lemma dget_filter_greeting:
  "dget (filter_greeting d g) k =
     (if k = ''name'' \<and> py_eq (dget d ''name'') g then PNone else dget d k)"
  by (simp add: filter_greeting_def dget_dset)

lemma set_filter_greeting:
  "(k, v) \<in> set (filter_greeting d g) \<Longrightarrow> v \<noteq> PNone \<Longrightarrow> (k, v) \<in> set d"
  by (auto simp: filter_greeting_def split: if_splits dest: set_dset)

lemma smart_merge_Inr:
  "smart_merge ex nd g now = Inr (merged, upd) \<Longrightarrow>
     \<exists>m'. merge_loop ex (filter_greeting nd g) (ex, []) = Inr (m', upd)
        \<and> merged = dset m' ''updatedAt'' (PDatetime now)"
  by (auto simp: smart_merge_def split: sum.splits)

lemma smart_merge_Inl:
  "smart_merge ex nd g now = Inl err \<Longrightarrow>
     merge_loop ex (filter_greeting nd g) (ex, []) = Inl err"
  by (auto simp: smart_merge_def split: sum.splits)

lemma smart_merge_raises:
  assumes "is_dict nd" "smart_merge ex nd g now = Inl err"
  shows "err = AttributeError \<and> truthy (dget nd ''name'') \<and> (\<forall>s. dget nd ''name'' \<noteq> PStr s)"
proof -
  from merge_loop_raises[OF smart_merge_Inl[OF assms(2)]]
  obtain v where e: "err = AttributeError" and v: "(''name'', v) \<in> set (filter_greeting nd g)"
    "truthy v" "\<forall>s. v \<noteq> PStr s" by blast
  from v(2) have "v \<noteq> PNone" by auto
  from set_filter_greeting[OF v(1) this] assms(1) have "dget nd ''name'' = v"
    by (simp add: dget_member)
  with e v show ?thesis by simp
qed

lemma smart_merge_listed:
  assumes "is_dict nd" "smart_merge ex nd g now = Inr (merged, upd)" "k \<in> set upd"
  shows "spec_accepts ex k (dget nd k) \<and> dget merged k = dget nd k
           \<and> k \<notin> set metadata_fields \<and> (k \<in> set protected_fields \<longrightarrow> truthy (dget nd k))"
proof -
  from smart_merge_Inr[OF assms(2)] obtain m' where
    loop: "merge_loop ex (filter_greeting nd g) (ex, []) = Inr (m', upd)"
    and merged: "merged = dset m' ''updatedAt'' (PDatetime now)" by blast
  from merge_loop_listed[OF loop assms(3)] obtain v where
    v: "(k, v) \<in> set (filter_greeting nd g)" "spec_accepts ex k v" "k \<notin> set metadata_fields"
       "k \<in> set protected_fields \<longrightarrow> truthy v" by auto
  from v(2) have "v \<noteq> PNone" by (simp add: spec_accepts_def spec_present_def)
  from set_filter_greeting[OF v(1) this] assms(1) have nd: "dget nd k = v"
    by (simp add: dget_member)
  from is_dict_filter_greeting[OF assms(1)] have "distinct (map fst (filter_greeting nd g))"
    by (simp add: is_dict_def)
  from merge_loop_listed_value[OF loop this v(1) assms(3)] have "dget m' k = v" by simp
  moreover from v(3) have "k \<noteq> ''updatedAt''" by (auto simp: metadata_fields_def)
  ultimately have "dget merged k = v" by (simp add: merged dget_dset)
  with nd v show ?thesis by simp
qed

lemma smart_merge_unlisted:
  assumes "smart_merge ex nd g now = Inr (merged, upd)" "k \<notin> set upd" "k \<noteq> ''updatedAt''"
  shows "dget merged k = dget ex k"
proof -
  from smart_merge_Inr[OF assms(1)] obtain m' where
    loop: "merge_loop ex (filter_greeting nd g) (ex, []) = Inr (m', upd)"
    and merged: "merged = dset m' ''updatedAt'' (PDatetime now)" by blast
  from merge_loop_frame[OF loop assms(2)] assms(3) show ?thesis
    by (simp add: merged dget_dset)
qed

lemma smart_merge_changed:
  assumes "is_dict nd" "smart_merge ex nd g now = Inr (merged, upd)"
    "dget merged k \<noteq> dget ex k" "k \<noteq> ''updatedAt''"
  shows "k \<in> set upd"
  using smart_merge_unlisted[OF assms(2) _ assms(4)] assms(3) by blast

text \<open>
  Claim C5. In a merge, a protected field (\<open>name\<close>, \<open>phoneNumber\<close>) enters the change-set
  only if the candidate's value is present and differs from the stored value, and the name
  only if it has at least two whitespace-separated tokens; the merged document then holds
  the candidate's value. A candidate name of fewer than two tokens is rejected: the name is
  not in the change-set and the stored name stays. The merge raises only on a truthy name
  that is not a string.
\<close>

theorem protected_accept_only_if:
  assumes "is_dict new_data"
  shows "case smart_merge existing_booking new_data greeting_name now of
           Inl err \<Rightarrow>
             err = AttributeError \<and> truthy (dget new_data ''name'')
               \<and> (\<forall>s. dget new_data ''name'' \<noteq> PStr s)
         | Inr (merged, updated_fields) \<Rightarrow>
             (\<forall>f \<in> set protected_fields. f \<in> set updated_fields \<longrightarrow>
                spec_accepts existing_booking f (dget new_data f)
                  \<and> dget merged f = dget new_data f)
             \<and> (\<forall>s. dget new_data ''name'' = PStr s \<and> length (py_split s) < 2 \<longrightarrow>
                  ''name'' \<notin> set updated_fields
                    \<and> dget merged ''name'' = dget existing_booking ''name'')"
proof (cases "smart_merge existing_booking new_data greeting_name now")
  case (Inl err)
  with smart_merge_raises[OF assms Inl] show ?thesis by simp
next
  case (Inr r)
  obtain merged upd where r: "r = (merged, upd)" by (cases r)
  note sm = Inr[unfolded r]
  have a: "\<forall>f \<in> set protected_fields. f \<in> set upd \<longrightarrow>
             spec_accepts existing_booking f (dget new_data f) \<and> dget merged f = dget new_data f"
    using smart_merge_listed[OF assms sm] by blast
  have b: "\<forall>s. dget new_data ''name'' = PStr s \<and> length (py_split s) < 2 \<longrightarrow>
             ''name'' \<notin> set upd \<and> dget merged ''name'' = dget existing_booking ''name''"
  proof (intro allI impI)
    fix s assume s: "dget new_data ''name'' = PStr s \<and> length (py_split s) < 2"
    have notin: "''name'' \<notin> set upd"
    proof
      assume "''name'' \<in> set upd"
      from smart_merge_listed[OF assms sm this] s show False
        by (auto simp: spec_accepts_def)
    qed
    from smart_merge_unlisted[OF sm notin] notin
    show "''name'' \<notin> set upd \<and> dget merged ''name'' = dget existing_booking ''name''"
      by simp
  qed
  show ?thesis unfolding sm sum.case prod.case
    by (intro conjI) (rule a, rule b)
qed

theorem protected_accept_only_if_witness:
  "is_dict [(''booking_reference'', PStr ''GYG3''), (''name'', PStr ''Bob'')]
   \<and> (\<exists>merged. smart_merge
         [(''_id'', PObjectId 1), (''booking_reference'', PStr ''GYG3''),
          (''name'', PStr ''Robert Stone''), (''phoneNumber'', PStr ''+1555'')]
         [(''booking_reference'', PStr ''GYG3''), (''name'', PStr ''Bob'')] PNone 9
        = Inr (merged, []) \<and> dget merged ''name'' = PStr ''Robert Stone'')"
proof -
  have d: "is_dict [(''booking_reference'', PStr ''GYG3''), (''name'', PStr ''Bob'')]"
    by (simp add: is_dict_def)
  have e: "smart_merge
         [(''_id'', PObjectId 1), (''booking_reference'', PStr ''GYG3''),
          (''name'', PStr ''Robert Stone''), (''phoneNumber'', PStr ''+1555'')]
         [(''booking_reference'', PStr ''GYG3''), (''name'', PStr ''Bob'')] PNone 9
        = Inr ([(''_id'', PObjectId 1), (''booking_reference'', PStr ''GYG3''),
          (''name'', PStr ''Robert Stone''), (''phoneNumber'', PStr ''+1555''),
          (''updatedAt'', PDatetime 9)], [])"
    by (simp add: smart_merge_def filter_greeting_def dget_def dset_def metadata_fields_def
        protected_fields_def py_split_def is_space_def)
  from protected_accept_only_if[OF d, of
      "[(''_id'', PObjectId 1), (''booking_reference'', PStr ''GYG3''),
        (''name'', PStr ''Robert Stone''), (''phoneNumber'', PStr ''+1555'')]" PNone 9]
  show ?thesis using d unfolding e by (simp add: dget_def py_split_def is_space_def)
qed

text \<open>
  Claim C6. When the stored \<open>name\<close> and \<open>phoneNumber\<close> are set, no merge leaves either
  of them absent in the merged document. A merged name that differs from the stored one is
  the candidate's name, unequal to the stored one and of at least two tokens; a merged
  phone number that differs from the stored one is the candidate's, unequal to the stored
  one.
\<close>

theorem protected_never_nulled:
  assumes "is_dict new_data"
    and "dget existing_booking ''name'' \<noteq> PNone"
    and "dget existing_booking ''phoneNumber'' \<noteq> PNone"
  shows "case smart_merge existing_booking new_data greeting_name now of
           Inl err \<Rightarrow>
             err = AttributeError \<and> truthy (dget new_data ''name'')
               \<and> (\<forall>s. dget new_data ''name'' \<noteq> PStr s)
         | Inr (merged, updated_fields) \<Rightarrow>
             dget merged ''name'' \<noteq> PNone \<and> dget merged ''phoneNumber'' \<noteq> PNone
             \<and> (spec_present (dget existing_booking ''name'')
                  \<longrightarrow> spec_present (dget merged ''name''))
             \<and> (spec_present (dget existing_booking ''phoneNumber'')
                  \<longrightarrow> spec_present (dget merged ''phoneNumber''))
             \<and> (dget merged ''name'' \<noteq> dget existing_booking ''name'' \<longrightarrow>
                  dget merged ''name'' = dget new_data ''name''
                  \<and> \<not> py_eq (dget new_data ''name'') (dget existing_booking ''name'')
                  \<and> (\<exists>s. dget new_data ''name'' = PStr s \<and> 2 \<le> length (py_split s)))
             \<and> (dget merged ''phoneNumber'' \<noteq> dget existing_booking ''phoneNumber'' \<longrightarrow>
                  dget merged ''phoneNumber'' = dget new_data ''phoneNumber''
                  \<and> \<not> py_eq (dget new_data ''phoneNumber'')
                        (dget existing_booking ''phoneNumber''))"
proof (cases "smart_merge existing_booking new_data greeting_name now")
  case (Inl err)
  with smart_merge_raises[OF assms(1) Inl] show ?thesis by simp
next
  case (Inr r)
  obtain merged upd where r: "r = (merged, upd)" by (cases r)
  note sm = Inr[unfolded r]
  have ch: "dget merged k \<noteq> dget existing_booking k \<Longrightarrow> k \<noteq> ''updatedAt'' \<Longrightarrow>
        spec_accepts existing_booking k (dget new_data k) \<and> dget merged k = dget new_data k" for k
    using smart_merge_listed[OF assms(1) sm smart_merge_changed[OF assms(1) sm]] by blast
  have nm: "dget merged ''name'' \<noteq> dget existing_booking ''name'' \<Longrightarrow>
        spec_accepts existing_booking ''name'' (dget new_data ''name'')
          \<and> dget merged ''name'' = dget new_data ''name''"
    using ch[of "''name''"] by simp
  have ph: "dget merged ''phoneNumber'' \<noteq> dget existing_booking ''phoneNumber'' \<Longrightarrow>
        spec_accepts existing_booking ''phoneNumber'' (dget new_data ''phoneNumber'')
          \<and> dget merged ''phoneNumber'' = dget new_data ''phoneNumber''"
    using ch[of "''phoneNumber''"] by simp
  have 1: "dget merged ''name'' \<noteq> PNone"
    using nm assms(2) by (cases "dget merged ''name'' = dget existing_booking ''name''")
      (auto simp: spec_accepts_def spec_present_def)
  have 2: "dget merged ''phoneNumber'' \<noteq> PNone"
    using ph assms(3)
    by (cases "dget merged ''phoneNumber'' = dget existing_booking ''phoneNumber''")
      (auto simp: spec_accepts_def spec_present_def)
  have 3: "spec_present (dget existing_booking ''name'') \<longrightarrow> spec_present (dget merged ''name'')"
    using nm by (cases "dget merged ''name'' = dget existing_booking ''name''")
      (auto simp: spec_accepts_def)
  have 4: "spec_present (dget existing_booking ''phoneNumber'')
             \<longrightarrow> spec_present (dget merged ''phoneNumber'')"
    using ph by (cases "dget merged ''phoneNumber'' = dget existing_booking ''phoneNumber''")
      (auto simp: spec_accepts_def)
  have 5: "dget merged ''name'' \<noteq> dget existing_booking ''name'' \<longrightarrow>
                  dget merged ''name'' = dget new_data ''name''
                  \<and> \<not> py_eq (dget new_data ''name'') (dget existing_booking ''name'')
                  \<and> (\<exists>s. dget new_data ''name'' = PStr s \<and> 2 \<le> length (py_split s))"
    using nm by (auto simp: spec_accepts_def)
  have 6: "dget merged ''phoneNumber'' \<noteq> dget existing_booking ''phoneNumber'' \<longrightarrow>
                  dget merged ''phoneNumber'' = dget new_data ''phoneNumber''
                  \<and> \<not> py_eq (dget new_data ''phoneNumber'')
                        (dget existing_booking ''phoneNumber'')"
    using ph by (auto simp: spec_accepts_def)
  show ?thesis unfolding sm sum.case prod.case
    by (intro conjI) (rule 1, rule 2, rule 3, rule 4, rule 5, rule 6)
qed

theorem protected_never_nulled_witness:
  "is_dict [(''booking_reference'', PStr ''GYG1''), (''name'', PStr ''Ana Maria Silva''),
            (''phoneNumber'', PNone)]
   \<and> dget [(''_id'', PObjectId 1), (''booking_reference'', PStr ''GYG1''),
            (''name'', PStr ''Maria Lopez''), (''phoneNumber'', PStr ''+1555'')] ''name'' \<noteq> PNone
   \<and> dget [(''_id'', PObjectId 1), (''booking_reference'', PStr ''GYG1''),
            (''name'', PStr ''Maria Lopez''), (''phoneNumber'', PStr ''+1555'')] ''phoneNumber''
         \<noteq> PNone
   \<and> (\<exists>merged. smart_merge
         [(''_id'', PObjectId 1), (''booking_reference'', PStr ''GYG1''),
          (''name'', PStr ''Maria Lopez''), (''phoneNumber'', PStr ''+1555'')]
         [(''booking_reference'', PStr ''GYG1''), (''name'', PStr ''Ana Maria Silva''),
          (''phoneNumber'', PNone)] PNone 9
        = Inr (merged, [''name'']) \<and> dget merged ''name'' = PStr ''Ana Maria Silva''
          \<and> dget merged ''phoneNumber'' \<noteq> PNone)"
proof -
  let ?nd = "[(''booking_reference'', PStr ''GYG1''), (''name'', PStr ''Ana Maria Silva''),
              (''phoneNumber'', PNone)]"
  let ?ex = "[(''_id'', PObjectId 1), (''booking_reference'', PStr ''GYG1''),
              (''name'', PStr ''Maria Lopez''), (''phoneNumber'', PStr ''+1555'')]"
  have d: "is_dict ?nd" by (simp add: is_dict_def)
  have n: "dget ?ex ''name'' \<noteq> PNone" by (simp add: dget_def)
  have p: "dget ?ex ''phoneNumber'' \<noteq> PNone" by (simp add: dget_def)
  have e: "smart_merge ?ex ?nd PNone 9
        = Inr ([(''_id'', PObjectId 1), (''booking_reference'', PStr ''GYG1''),
                (''name'', PStr ''Ana Maria Silva''), (''phoneNumber'', PStr ''+1555''),
                (''updatedAt'', PDatetime 9)], [''name''])"
    by (simp add: smart_merge_def filter_greeting_def dget_def dset_def metadata_fields_def
        protected_fields_def py_split_def is_space_def)
  from protected_never_nulled[OF d n p, of PNone 9]
  show ?thesis using d n p unfolding e by (simp add: dget_def)
qed

section \<open>The merge on the object store\<close>

lemma merge_loop_h_returns:
  "e \<noteq> m \<Longrightarrow> m < length h \<Longrightarrow> merge_loop (h ! e) items (h ! m, u) = Inr (m', u') \<Longrightarrow>
     merge_loop_h e m items (h, u) = (h[m := m'], Inr u')"
proof (induction items arbitrary: h u)
  case Nil
  then show ?case by auto
next
  case (Cons it items)
  obtain f v where it: "it = (f, v)" by (cases it)
  let ?h = "h[m := dset (h ! m) f v]"
  have upd: "merge_loop (h ! e) items (dset (h ! m) f v, u @ [f]) = Inr (m', u') \<Longrightarrow>
      merge_loop_h e m items (?h, u @ [f]) = (h[m := m'], Inr u')"
    using Cons.IH[of ?h "u @ [f]"] Cons.prems(1,2) by simp
  from Cons.prems(3) Cons.IH[OF Cons.prems(1,2)] upd show ?case
    unfolding it by (auto split: if_splits pyval.splits)
qed

lemma merge_loop_h_raises:
  "e \<noteq> m \<Longrightarrow> m < length h \<Longrightarrow> merge_loop (h ! e) items (h ! m, u) = Inl err \<Longrightarrow>
     \<exists>x. merge_loop_h e m items (h, u) = (h[m := x], Inl err)"
proof (induction items arbitrary: h u)
  case Nil
  then show ?case by auto
next
  case (Cons it items)
  obtain f v where it: "it = (f, v)" by (cases it)
  let ?h = "h[m := dset (h ! m) f v]"
  have upd: "merge_loop (h ! e) items (dset (h ! m) f v, u @ [f]) = Inl err \<Longrightarrow>
      \<exists>x. merge_loop_h e m items (?h, u @ [f]) = (h[m := x], Inl err)"
    using Cons.IH[of ?h "u @ [f]"] Cons.prems(1,2) by simp
  have here: "\<exists>x. (h, Inl AttributeError :: py_error + string list) = (h[m := x], Inl AttributeError)"
    by (rule exI[of _ "h ! m"]) simp
  from Cons.prems(3) Cons.IH[OF Cons.prems(1,2)] upd here show ?case
    unfolding it by (auto split: if_splits pyval.splits)
qed

text \<open>
  Claim C10. Called on two distinct objects, \<^verbatim>\<open>smart_merge\<close> leaves the existing record
  as it was and works on a fresh copy; no object other than the candidate (whose name the
  greeting filter may clear) and the copy is written. On return the merged document agrees
  with the existing record on every field that is neither in the change-set nor
  \<open>updatedAt\<close>, and \<open>updatedAt\<close> holds the clock reading of this call, whatever the
  change-set. The results are those of the merge on values.
\<close>

theorem smart_merge_frame:
  assumes "e < length h" and "n < length h" and "e \<noteq> n"
  shows "case smart_merge_h h e n greeting_name now of
           (h', r) \<Rightarrow>
             h' ! e = h ! e \<and> length h' = Suc (length h)
             \<and> (\<forall>a < length h. a \<noteq> n \<longrightarrow> h' ! a = h ! a)
             \<and> h' ! n = filter_greeting (h ! n) greeting_name
             \<and> (case r of
                  Inl err \<Rightarrow> smart_merge (h ! e) (h ! n) greeting_name now = Inl err
                | Inr (m, updated_fields) \<Rightarrow>
                    m = length h
                    \<and> smart_merge (h ! e) (h ! n) greeting_name now
                        = Inr (h' ! m, updated_fields)
                    \<and> (\<forall>k. k \<notin> set updated_fields \<and> k \<noteq> ''updatedAt'' \<longrightarrow>
                          dget (h' ! m) k = dget (h ! e) k)
                    \<and> dget (h' ! m) ''updatedAt'' = PDatetime now
                    \<and> ''updatedAt'' \<notin> set updated_fields)"
proof -
  let ?m = "length h"
  let ?h1 = "h @ [h ! e]"
  let ?h2 = "if py_eq (dget (?h1 ! n) ''name'') greeting_name
             then ?h1[n := dset (?h1 ! n) ''name'' PNone] else ?h1"
  have len: "length ?h2 = Suc ?m" by simp
  have e2: "?h2 ! e = h ! e" using assms by (simp add: nth_append)
  have m2: "?h2 ! ?m = h ! e" using assms by (simp add: nth_append)
  have n2: "?h2 ! n = filter_greeting (h ! n) greeting_name"
    using assms by (simp add: nth_append filter_greeting_def)
  have other: "a < ?m \<Longrightarrow> a \<noteq> n \<Longrightarrow> ?h2 ! a = h ! a" for a
    by (simp add: nth_append)
  have em: "e \<noteq> ?m" and mlt: "?m < length ?h2" using assms by simp_all
  have sh: "smart_merge_h h e n greeting_name now =
      (case merge_loop_h e ?m (?h2 ! n) (?h2, []) of
         (h3, Inl err) \<Rightarrow> (h3, Inl err)
       | (h3, Inr upd) \<Rightarrow>
           (h3[?m := dset (h3 ! ?m) ''updatedAt'' (PDatetime now)], Inr (?m, upd)))"
    by (simp add: smart_merge_h_def Let_def)
  show ?thesis
  proof (cases "merge_loop (h ! e) (filter_greeting (h ! n) greeting_name) (h ! e, [])")
    case (Inl err)
    then have pure: "smart_merge (h ! e) (h ! n) greeting_name now = Inl err"
      by (simp add: smart_merge_def)
    from Inl have "merge_loop (?h2 ! e) (?h2 ! n) (?h2 ! ?m, []) = Inl err"
      by (simp only: e2 m2 n2)
    from merge_loop_h_raises[OF em mlt this] obtain x where
      x: "merge_loop_h e ?m (?h2 ! n) (?h2, []) = (?h2[?m := x], Inl err)" by blast
    have res: "smart_merge_h h e n greeting_name now = (?h2[?m := x], Inl err)"
      unfolding sh x by simp
    have "(?h2[?m := x]) ! e = h ! e" using e2 em by (simp del: e2)
    moreover have "length (?h2[?m := x]) = Suc ?m" by simp
    moreover have "\<forall>a < ?m. a \<noteq> n \<longrightarrow> (?h2[?m := x]) ! a = h ! a"
      using other by (auto simp: nth_list_update)
    moreover have "(?h2[?m := x]) ! n = filter_greeting (h ! n) greeting_name"
      using n2 assms(2) by (simp add: nth_list_update)
    ultimately show ?thesis unfolding res using pure by simp
  next
    case (Inr r)
    obtain m' upd where r: "r = (m', upd)" by (cases r)
    note loop = Inr[unfolded r]
    let ?md = "dset m' ''updatedAt'' (PDatetime now)"
    from loop have pure: "smart_merge (h ! e) (h ! n) greeting_name now = Inr (?md, upd)"
      by (simp add: smart_merge_def)
    from loop have "merge_loop (?h2 ! e) (?h2 ! n) (?h2 ! ?m, []) = Inr (m', upd)"
      by (simp only: e2 m2 n2)
    from merge_loop_h_returns[OF em mlt this]
    have x: "merge_loop_h e ?m (?h2 ! n) (?h2, []) = (?h2[?m := m'], Inr upd)" .
    have res: "smart_merge_h h e n greeting_name now = (?h2[?m := ?md], Inr (?m, upd))"
      unfolding sh x by simp
    have "(?h2[?m := ?md]) ! e = h ! e" using e2 em by (simp del: e2)
    moreover have "length (?h2[?m := ?md]) = Suc ?m" by simp
    moreover have "\<forall>a < ?m. a \<noteq> n \<longrightarrow> (?h2[?m := ?md]) ! a = h ! a"
      using other by (auto simp: nth_list_update)
    moreover have "(?h2[?m := ?md]) ! n = filter_greeting (h ! n) greeting_name"
      using n2 assms(2) by (simp add: nth_list_update)
    moreover have at_m: "(?h2[?m := ?md]) ! ?m = ?md" by simp
    moreover have "\<forall>k. k \<notin> set upd \<and> k \<noteq> ''updatedAt'' \<longrightarrow> dget ?md k = dget (h ! e) k"
      using smart_merge_unlisted[OF pure] by blast
    moreover have "dget ?md ''updatedAt'' = PDatetime now" by (simp add: dget_dset)
    moreover have "''updatedAt'' \<notin> set upd"
    proof
      assume "''updatedAt'' \<in> set upd"
      from merge_loop_listed[OF loop this] show False by (simp add: metadata_fields_def)
    qed
    ultimately show ?thesis unfolding res using pure by (simp del: nth_list_update_eq)
  qed
qed

theorem smart_merge_frame_witness:
  "(0::nat) < length [[(''_id'', PObjectId 1), (''booking_reference'', PStr ''GYG1''),
                       (''name'', PStr ''Maria Lopez''), (''phoneNumber'', PStr ''+1555''),
                       (''tourDate'', PStr ''March 1, 2026'')],
                      [(''booking_reference'', PStr ''GYG1''),
                       (''tourDate'', PStr ''March 5, 2026''), (''is_amendment'', PBool True)]]
   \<and> (1::nat) < length [[(''_id'', PObjectId 1), (''booking_reference'', PStr ''GYG1''),
                       (''name'', PStr ''Maria Lopez''), (''phoneNumber'', PStr ''+1555''),
                       (''tourDate'', PStr ''March 1, 2026'')],
                      [(''booking_reference'', PStr ''GYG1''),
                       (''tourDate'', PStr ''March 5, 2026''), (''is_amendment'', PBool True)]]
   \<and> (0::nat) \<noteq> 1
   \<and> (\<exists>h'. smart_merge_h
              [[(''_id'', PObjectId 1), (''booking_reference'', PStr ''GYG1''),
                (''name'', PStr ''Maria Lopez''), (''phoneNumber'', PStr ''+1555''),
                (''tourDate'', PStr ''March 1, 2026'')],
               [(''booking_reference'', PStr ''GYG1''),
                (''tourDate'', PStr ''March 5, 2026''), (''is_amendment'', PBool True)]]
              0 1 PNone 9 = (h', Inr (2, [''tourDate'']))
          \<and> h' ! 0 = [(''_id'', PObjectId 1), (''booking_reference'', PStr ''GYG1''),
                        (''name'', PStr ''Maria Lopez''), (''phoneNumber'', PStr ''+1555''),
                        (''tourDate'', PStr ''March 1, 2026'')]
          \<and> dget (h' ! 2) ''name'' = PStr ''Maria Lopez''
          \<and> dget (h' ! 2) ''tourDate'' = PStr ''March 5, 2026''
          \<and> dget (h' ! 2) ''updatedAt'' = PDatetime 9)"
proof -
  let ?ex = "[(''_id'', PObjectId 1), (''booking_reference'', PStr ''GYG1''),
              (''name'', PStr ''Maria Lopez''), (''phoneNumber'', PStr ''+1555''),
              (''tourDate'', PStr ''March 1, 2026'')]"
  let ?nd = "[(''booking_reference'', PStr ''GYG1''),
              (''tourDate'', PStr ''March 5, 2026''), (''is_amendment'', PBool True)]"
  have a: "(0::nat) < length [?ex, ?nd]" and b: "(1::nat) < length [?ex, ?nd]"
    and c: "(0::nat) \<noteq> 1" by simp_all
  have e: "smart_merge_h [?ex, ?nd] 0 1 PNone 9 =
      ([?ex, ?nd @ [(''name'', PNone)],
        [(''_id'', PObjectId 1), (''booking_reference'', PStr ''GYG1''),
         (''name'', PStr ''Maria Lopez''), (''phoneNumber'', PStr ''+1555''),
         (''tourDate'', PStr ''March 5, 2026''), (''updatedAt'', PDatetime 9)]],
       Inr (2, [''tourDate'']))"
    by (simp add: smart_merge_h_def dget_def dset_def metadata_fields_def
        protected_fields_def)
  from smart_merge_frame[OF a b c, of PNone 9]
  show ?thesis using a b c unfolding e by (simp add: dget_def)
qed

section \<open>The loop body\<close>

lemma find_one_delete_one:
  "find_one st ref = Some d \<Longrightarrow>
     \<exists>pre post. st = pre @ d # post \<and> delete_one st ref = pre @ post
        \<and> has_ref ref d \<and> (\<forall>x \<in> set pre. \<not> has_ref ref x)"
proof (induction st)
  case Nil
  then show ?case by (simp add: find_one_def)
next
  case (Cons a st)
  show ?case
  proof (cases "has_ref ref a")
    case True
    with Cons.prems have "a = d" by (simp add: find_one_def)
    with True have "a # st = [] @ d # st \<and> delete_one (a # st) ref = [] @ st
        \<and> has_ref ref d \<and> (\<forall>x \<in> set []. \<not> has_ref ref x)" by simp
    then show ?thesis by blast
  next
    case False
    with Cons.prems have "find_one st ref = Some d" by (simp add: find_one_def)
    from Cons.IH[OF this] obtain pre post where
      "st = pre @ d # post" "delete_one st ref = pre @ post" "has_ref ref d"
      "\<forall>x \<in> set pre. \<not> has_ref ref x" by blast
    with False have "a # st = (a # pre) @ d # post \<and> delete_one (a # st) ref = (a # pre) @ post
        \<and> has_ref ref d \<and> (\<forall>x \<in> set (a # pre). \<not> has_ref ref x)" by simp
    then show ?thesis by blast
  qed
qed

lemma find_one_None: "find_one st ref = None \<longleftrightarrow> (\<forall>d \<in> set st. \<not> has_ref ref d)"
  by (auto simp: find_one_def find_None_iff)

text \<open>
  Claim C4. For a candidate flagged as a cancellation: when it carries a booking reference
  and a record with that reference is in the collection, the pass reports a cancellation and
  the collection loses exactly the first such record; when no such record is there (or the
  candidate carries no reference) the collection is unchanged. In every case the pass
  counts as processed, not as an error, and no record is created.
\<close>

theorem cancellation_deletes_or_noop:
  assumes "truthy (dget parsed ''is_cancellation'')"
  shows "case main_body st c is_amendment greeting_name now now2 oid (Some parsed) of
           (st', c', out) \<Rightarrow>
             (truthy (dget parsed ''booking_reference'') \<longrightarrow>
                (case find_one st (dget parsed ''booking_reference'') of
                   Some existing \<Rightarrow>
                     out = Cancelled \<and> cancelled c' = cancelled c + 1
                     \<and> (\<exists>pre post. st = pre @ existing # post \<and> st' = pre @ post
                           \<and> has_ref (dget parsed ''booking_reference'') existing
                           \<and> (\<forall>x \<in> set pre.
                                 \<not> has_ref (dget parsed ''booking_reference'') x))
                 | None \<Rightarrow>
                     out = CancelNotFound \<and> st' = st \<and> cancelled c' = cancelled c))
             \<and> (\<not> truthy (dget parsed ''booking_reference'') \<longrightarrow>
                  out = CancelNoRef \<and> st' = st \<and> cancelled c' = cancelled c)
             \<and> errors c' = errors c \<and> processed c' = processed c + 1
             \<and> saved c' = saved c \<and> updated c' = updated c
             \<and> set st' \<subseteq> set st \<and> length st' \<le> length st"
proof -
  from assms have ne: "parsed \<noteq> []" by (auto simp: dget_def)
  show ?thesis
  proof (cases "truthy (dget parsed ''booking_reference'')")
    case False
    with assms ne show ?thesis by (simp add: main_body_def)
  next
    case True
    show ?thesis
    proof (cases "find_one st (dget parsed ''booking_reference'')")
      case None
      with assms ne True show ?thesis by (simp add: main_body_def)
    next
      case (Some existing)
      from find_one_delete_one[OF Some] obtain pre post where
        pp: "st = pre @ existing # post"
        "delete_one st (dget parsed ''booking_reference'') = pre @ post"
        "has_ref (dget parsed ''booking_reference'') existing"
        "\<forall>x \<in> set pre. \<not> has_ref (dget parsed ''booking_reference'') x" by blast
      have res: "main_body st c is_amendment greeting_name now now2 oid (Some parsed) =
          (pre @ post, c\<lparr>cancelled := cancelled c + 1, processed := processed c + 1\<rparr>, Cancelled)"
        using assms ne True Some pp(2) by (simp add: main_body_def)
      have ex: "\<exists>pre' post'. st = pre' @ existing # post' \<and> pre @ post = pre' @ post'
                           \<and> has_ref (dget parsed ''booking_reference'') existing
                           \<and> (\<forall>x \<in> set pre'.
                                 \<not> has_ref (dget parsed ''booking_reference'') x)"
        using pp by blast
      have sub: "set (pre @ post) \<subseteq> set st" "length (pre @ post) \<le> length st"
        using pp(1) by auto
      show ?thesis unfolding res using True Some ex sub by simp
    qed
  qed
qed

theorem cancellation_deletes_or_noop_witness:
  "truthy (dget [(''booking_reference'', PStr ''GYG4''), (''is_cancellation'', PBool True)]
             ''is_cancellation'')
   \<and> main_body [[(''_id'', PObjectId 1), (''booking_reference'', PStr ''GYG4'')]]
       initial_counters False PNone 1 2 3
       (Some [(''booking_reference'', PStr ''GYG4''), (''is_cancellation'', PBool True)])
     = ([], initial_counters\<lparr>cancelled := 1, processed := 1\<rparr>, Cancelled)
   \<and> main_body [] initial_counters False PNone 1 2 3
       (Some [(''booking_reference'', PStr ''GYG4''), (''is_cancellation'', PBool True)])
     = ([], initial_counters\<lparr>processed := 1\<rparr>, CancelNotFound)"
proof -
  let ?p = "[(''booking_reference'', PStr ''GYG4''), (''is_cancellation'', PBool True)]"
  have t: "truthy (dget ?p ''is_cancellation'')" by (simp add: dget_def)
  from cancellation_deletes_or_noop[OF t,
      of "[[(''_id'', PObjectId 1), (''booking_reference'', PStr ''GYG4'')]]"
         initial_counters False PNone 1 2 3]
    cancellation_deletes_or_noop[OF t, of "[]" initial_counters False PNone 1 2 3]
  show ?thesis using t
    by (simp add: main_body_def dget_def find_one_def has_ref_def initial_counters_def)
qed

section \<open>The encoding and the insert branch\<close>

lemma bson_json:
  "is_json v \<longrightarrow> bson_val v = Inr w \<longrightarrow> w = v"
  "list_all is_json xs \<longrightarrow> bson_list xs = Inr ys \<longrightarrow> ys = xs"
  "list_all (\<lambda>(k, v). is_json v) d \<longrightarrow> bson_doc d = Inr d' \<longrightarrow> d' = d"
  by (induction v and xs and d arbitrary: w and ys and d'
      rule: bson_val_bson_list_bson_doc.induct)
    (auto split: sum.splits if_splits)

lemma bson_val_json: "is_json v \<Longrightarrow> bson_val v = Inr w \<Longrightarrow> w = v"
  using bson_json(1) by blast

lemma bson_val_PNone: "bson_val v = Inr PNone \<Longrightarrow> v = PNone"
  by (cases v) (auto split: sum.splits if_splits)

lemma bson_doc_keys: "bson_doc d = Inr r \<Longrightarrow> map fst r = map fst d"
proof (induction d arbitrary: r)
  case Nil
  then show ?case by simp
next
  case (Cons a d)
  obtain k v where a: "a = (k, v)" by (cases a)
  from Cons.prems Cons.IH show ?case
    unfolding a by (auto split: if_splits sum.splits)
qed

lemma bson_doc_get: "bson_doc d = Inr r \<Longrightarrow> bson_val (dget d k) = Inr (dget r k)"
proof (induction d arbitrary: r)
  case Nil
  then show ?case by (simp add: dget_def)
next
  case (Cons a d)
  obtain k' v where a: "a = (k', v)" by (cases a)
  from Cons.prems obtain w ws where
    w: "bson_val v = Inr w" and ws: "bson_doc d = Inr ws" and r: "r = (k', w) # ws"
    unfolding a by (auto split: if_splits sum.splits)
  show ?case
  proof (cases "k = k'")
    case True
    with w show ?thesis by (simp add: a r dget_def)
  next
    case False
    with Cons.IH[OF ws] show ?thesis by (simp add: a r dget_def)
  qed
qed

lemma main_body_NewBooking:
  assumes "main_body st c is_amendment greeting_name now now2 oid (Some parsed)
             = (st', c', NewBooking)"
  shows "\<exists>doc. build_doc parsed now = Inr doc
           \<and> insert_one st (dset doc ''createdAt'' (PDatetime now2)) oid = Inr st'
           \<and> c' = c\<lparr>saved := saved c + 1, processed := processed c + 1\<rparr>
           \<and> \<not> display_raises (dget doc ''tour'') \<and> \<not> display_raises (dget doc ''address'')
           \<and> truthy (dget parsed ''booking_reference'')
           \<and> \<not> truthy (dget parsed ''is_cancellation'')"
  using assms unfolding main_body_def Let_def
  by (simp split: if_splits option.splits sum.splits prod.splits)

lemma build_doc_Inr:
  assumes "build_doc data now = Inr doc"
  shows "doc =
     [(''name'', dget data ''name''),
      (''vehicleType'',
         if truthy (dget data ''vehicleType'') then dget data ''vehicleType''
         else PStr ''Unknown''),
      (''address'', dget data ''address''),
      (''phoneNumber'', dget data ''phoneNumber''),
      (''tour'', dget data ''tour''),
      (''tourDate'', dget data ''tourDate''),
      (''tourTime'', dget data ''tourTime''),
      (''totalPassengers'', dget data ''totalPassengers''),
      (''specialRequirements'', PStr ''No''),
      (''booking_reference'', dget data ''booking_reference''),
      (''platform'', PStr ''GYG''),
      (''updatedAt'', PDatetime now)]"
proof (cases "map_of data ''booking_reference''")
  case None
  with assms show ?thesis by (simp add: build_doc_def)
next
  case (Some r)
  then have "dget data ''booking_reference'' = r" by (simp add: dget_def)
  with assms Some show ?thesis by (simp add: build_doc_def)
qed

text \<open>
  Claim C8, as amended. For a candidate that is given a new record, the document handed to
  the collection holds the candidate's \<open>name\<close>, \<open>address\<close>, \<open>phoneNumber\<close>, \<open>tour\<close>,
  \<open>tourDate\<close>, \<open>tourTime\<close>, \<open>totalPassengers\<close> and \<open>booking_reference\<close>; its \<open>vehicleType\<close>
  is the candidate's when that is truthy and the literal \<^verbatim>\<open>"Unknown"\<close> otherwise, never
  null; \<open>specialRequirements\<close> is the literal \<^verbatim>\<open>"No"\<close> and \<open>platform\<close> the literal
  \<^verbatim>\<open>"GYG"\<close>; \<open>updatedAt\<close> is the clock reading taken when the record is built and
  \<open>createdAt\<close> the one taken when it is inserted; it has no other field. The stored record
  is that document as the collection encodes it, with the identifier added: every field
  holds the encoded value, which for a value decoded from JSON is the value itself, and
  the two timestamps are kept to the millisecond.
\<close>

theorem created_record_fields:
  assumes "main_body st c is_amendment greeting_name now now2 oid (Some parsed)
             = (st', c', NewBooking)"
  shows "\<exists>d r. insert_one st d oid = Inr st' \<and> st' = st @ [r]
           \<and> map fst d =
               [''name'', ''vehicleType'', ''address'', ''phoneNumber'', ''tour'', ''tourDate'',
                ''tourTime'', ''totalPassengers'', ''specialRequirements'',
                ''booking_reference'', ''platform'', ''updatedAt'', ''createdAt'']
           \<and> (\<forall>f \<in> set [''name'', ''address'', ''phoneNumber'', ''tour'', ''tourDate'',
                         ''tourTime'', ''totalPassengers'', ''booking_reference''].
                 dget d f = dget parsed f)
           \<and> dget d ''vehicleType'' =
               (if truthy (dget parsed ''vehicleType'') then dget parsed ''vehicleType''
                else PStr ''Unknown'')
           \<and> dget d ''vehicleType'' \<noteq> PNone
           \<and> dget d ''specialRequirements'' = PStr ''No''
           \<and> dget d ''platform'' = PStr ''GYG''
           \<and> dget d ''updatedAt'' = PDatetime now
           \<and> dget d ''createdAt'' = PDatetime now2
           \<and> map fst r = map fst d @ [''_id'']
           \<and> (\<forall>f. f \<noteq> ''_id'' \<longrightarrow> bson_val (dget d f) = Inr (dget r f))
           \<and> (\<forall>f \<in> set [''name'', ''address'', ''phoneNumber'', ''tour'', ''tourDate'',
                         ''tourTime'', ''totalPassengers'', ''booking_reference'',
                         ''vehicleType''].
                 is_json (dget parsed f) \<longrightarrow> dget r f = dget d f)
           \<and> dget r ''vehicleType'' \<noteq> PNone
           \<and> dget r ''specialRequirements'' = PStr ''No''
           \<and> dget r ''platform'' = PStr ''GYG''
           \<and> dget r ''updatedAt'' = PDatetime (now div 1000 * 1000)
           \<and> dget r ''createdAt'' = PDatetime (now2 div 1000 * 1000)
           \<and> dget r ''_id'' = PObjectId oid"
proof -
  from main_body_NewBooking[OF assms] obtain doc where
    b: "build_doc parsed now = Inr doc"
    and ins: "insert_one st (dset doc ''createdAt'' (PDatetime now2)) oid = Inr st'" by blast
  note dl = build_doc_Inr[OF b]
  let ?d = "dset doc ''createdAt'' (PDatetime now2)"
  let ?e = "dset ?d ''_id'' (PObjectId oid)"
  have noid: "map_of ?d ''_id'' = None" unfolding dl by (simp add: dset_def)
  from ins noid obtain r where enc: "bson_doc ?e = Inr r" and st': "st' = st @ [r]"
    by (auto simp: insert_one_def split: sum.splits)
  have keys_d: "map fst ?d =
               [''name'', ''vehicleType'', ''address'', ''phoneNumber'', ''tour'', ''tourDate'',
                ''tourTime'', ''totalPassengers'', ''specialRequirements'',
                ''booking_reference'', ''platform'', ''updatedAt'', ''createdAt'']"
    unfolding dl by (simp add: dset_def)
  have keys_e: "map fst ?e = map fst ?d @ [''_id'']"
    unfolding dl by (simp add: dset_def)
  have keys_r: "map fst r = map fst ?d @ [''_id'']"
    using bson_doc_keys[OF enc] keys_e by simp
  have get_d: "dget ?d k = (if k = ''createdAt'' then PDatetime now2 else dget doc k)" for k
    by (simp add: dget_dset)
  have dflds: "\<forall>f \<in> set [''name'', ''address'', ''phoneNumber'', ''tour'', ''tourDate'',
                         ''tourTime'', ''totalPassengers'', ''booking_reference''].
                 dget doc f = dget parsed f"
    unfolding dl by (simp add: dget_def)
  have flds: "\<forall>f \<in> set [''name'', ''address'', ''phoneNumber'', ''tour'', ''tourDate'',
                         ''tourTime'', ''totalPassengers'', ''booking_reference''].
                 dget ?d f = dget parsed f"
    using dflds by (simp add: get_d)
  have dvt: "dget doc ''vehicleType'' =
               (if truthy (dget parsed ''vehicleType'') then dget parsed ''vehicleType''
                else PStr ''Unknown'')"
    unfolding dl by (simp add: dget_def)
  have vt: "dget ?d ''vehicleType'' =
               (if truthy (dget parsed ''vehicleType'') then dget parsed ''vehicleType''
                else PStr ''Unknown'')"
    using dvt by (simp add: get_d)
  have vt2: "dget ?d ''vehicleType'' \<noteq> PNone" unfolding vt by auto
  have dlits: "dget doc ''specialRequirements'' = PStr ''No''"
    "dget doc ''platform'' = PStr ''GYG''" "dget doc ''updatedAt'' = PDatetime now"
    unfolding dl by (simp_all add: dget_def)
  have lits: "dget ?d ''specialRequirements'' = PStr ''No''"
    "dget ?d ''platform'' = PStr ''GYG''" "dget ?d ''updatedAt'' = PDatetime now"
    "dget ?d ''createdAt'' = PDatetime now2"
    using dlits by (simp_all add: get_d)
  have enc_get: "bson_val (dget ?e k) = Inr (dget r k)" for k
    by (rule bson_doc_get[OF enc])
  have enc_d: "\<forall>f. f \<noteq> ''_id'' \<longrightarrow> bson_val (dget ?d f) = Inr (dget r f)"
  proof (intro allI impI)
    fix f :: string assume "f \<noteq> ''_id''"
    then have "dget ?e f = dget ?d f" by (simp only: dget_dset if_False)
    with enc_get[of f] show "bson_val (dget ?d f) = Inr (dget r f)" by simp
  qed
  have rid: "dget r ''_id'' = PObjectId oid"
    using enc_get[of "''_id''"] by (simp add: dget_dset)
  have json: "\<forall>f \<in> set [''name'', ''address'', ''phoneNumber'', ''tour'', ''tourDate'',
                         ''tourTime'', ''totalPassengers'', ''booking_reference'',
                         ''vehicleType''].
                 is_json (dget parsed f) \<longrightarrow> dget r f = dget ?d f"
  proof (intro ballI impI)
    fix f assume f: "f \<in> set [''name'', ''address'', ''phoneNumber'', ''tour'', ''tourDate'',
                         ''tourTime'', ''totalPassengers'', ''booking_reference'',
                         ''vehicleType'']"
      and j: "is_json (dget parsed f)"
    from f flds vt j have "is_json (dget ?d f)" by auto
    moreover from f enc_d have "bson_val (dget ?d f) = Inr (dget r f)" by auto
    ultimately show "dget r f = dget ?d f" by (rule bson_val_json)
  qed
  have rvt: "dget r ''vehicleType'' \<noteq> PNone"
  proof
    assume "dget r ''vehicleType'' = PNone"
    with enc_d have "bson_val (dget ?d ''vehicleType'') = Inr PNone" by simp
    from bson_val_PNone[OF this] vt2 show False by simp
  qed
  have rl: "dget r ''specialRequirements'' = PStr ''No''" "dget r ''platform'' = PStr ''GYG''"
    "dget r ''updatedAt'' = PDatetime (now div 1000 * 1000)"
    "dget r ''createdAt'' = PDatetime (now2 div 1000 * 1000)"
    using enc_d[rule_format, of "''specialRequirements''"] enc_d[rule_format, of "''platform''"]
      enc_d[rule_format, of "''updatedAt''"] enc_d[rule_format, of "''createdAt''"] lits
    by simp_all
  show ?thesis
    apply (rule exI[of _ ?d])
    apply (rule exI[of _ r])
    apply (intro conjI)
    apply (rule ins, rule st', rule keys_d, rule flds, rule vt, rule vt2)
    apply (rule lits(1), rule lits(2), rule lits(3), rule lits(4))
    apply (rule keys_r, rule enc_d, rule json, rule rvt)
    apply (rule rl(1), rule rl(2), rule rl(3), rule rl(4), rule rid)
    done
qed

theorem created_record_fields_witness:
  "main_body [] initial_counters False PNone 1500 2750 3
       (Some [(''booking_reference'', PStr ''GYG1''), (''name'', PStr ''Maria Lopez'')])
     = ([[(''name'', PStr ''Maria Lopez''), (''vehicleType'', PStr ''Unknown''),
          (''address'', PNone), (''phoneNumber'', PNone), (''tour'', PNone),
          (''tourDate'', PNone), (''tourTime'', PNone), (''totalPassengers'', PNone),
          (''specialRequirements'', PStr ''No''), (''booking_reference'', PStr ''GYG1''),
          (''platform'', PStr ''GYG''), (''updatedAt'', PDatetime 1000),
          (''createdAt'', PDatetime 2000), (''_id'', PObjectId 3)]],
        initial_counters\<lparr>saved := 1, processed := 1\<rparr>, NewBooking)
   \<and> (\<exists>d r. [[(''name'', PStr ''Maria Lopez''), (''vehicleType'', PStr ''Unknown''),
          (''address'', PNone), (''phoneNumber'', PNone), (''tour'', PNone),
          (''tourDate'', PNone), (''tourTime'', PNone), (''totalPassengers'', PNone),
          (''specialRequirements'', PStr ''No''), (''booking_reference'', PStr ''GYG1''),
          (''platform'', PStr ''GYG''), (''updatedAt'', PDatetime 1000),
          (''createdAt'', PDatetime 2000), (''_id'', PObjectId 3)]] = [] @ [r]
        \<and> dget d ''name'' = PStr ''Maria Lopez''
        \<and> dget d ''vehicleType'' = PStr ''Unknown''
        \<and> dget d ''updatedAt'' = PDatetime 1500 \<and> dget d ''createdAt'' = PDatetime 2750
        \<and> dget r ''name'' = PStr ''Maria Lopez''
        \<and> dget r ''vehicleType'' = PStr ''Unknown''
        \<and> dget r ''updatedAt'' = PDatetime 1000 \<and> dget r ''createdAt'' = PDatetime 2000)"
proof -
  let ?p = "[(''booking_reference'', PStr ''GYG1''), (''name'', PStr ''Maria Lopez'')]"
  let ?R = "[(''name'', PStr ''Maria Lopez''), (''vehicleType'', PStr ''Unknown''),
          (''address'', PNone), (''phoneNumber'', PNone), (''tour'', PNone),
          (''tourDate'', PNone), (''tourTime'', PNone), (''totalPassengers'', PNone),
          (''specialRequirements'', PStr ''No''), (''booking_reference'', PStr ''GYG1''),
          (''platform'', PStr ''GYG''), (''updatedAt'', PDatetime 1000),
          (''createdAt'', PDatetime 2000), (''_id'', PObjectId 3)]"
  have e: "main_body [] initial_counters False PNone 1500 2750 3 (Some ?p)
     = ([?R], initial_counters\<lparr>saved := 1, processed := 1\<rparr>, NewBooking)"
    by (simp add: main_body_def build_doc_def insert_one_def has_nul_def find_one_def dget_def
        dset_def display_raises_def initial_counters_def)
  from created_record_fields[OF e] obtain d r where
    r: "[?R] = [] @ [r]"
    and n: "\<forall>f \<in> set [''name'', ''address'', ''phoneNumber'', ''tour'', ''tourDate'',
                         ''tourTime'', ''totalPassengers'', ''booking_reference''].
                 dget d f = dget ?p f"
    and v: "dget d ''vehicleType'' =
        (if truthy (dget ?p ''vehicleType'') then dget ?p ''vehicleType'' else PStr ''Unknown'')"
    and t: "dget d ''updatedAt'' = PDatetime 1500" "dget d ''createdAt'' = PDatetime 2750"
    and j: "\<forall>f \<in> set [''name'', ''address'', ''phoneNumber'', ''tour'', ''tourDate'',
                         ''tourTime'', ''totalPassengers'', ''booking_reference'',
                         ''vehicleType''].
                 is_json (dget ?p f) \<longrightarrow> dget r f = dget d f"
    and rt: "dget r ''updatedAt'' = PDatetime (1500 div 1000 * 1000)"
      "dget r ''createdAt'' = PDatetime (2750 div 1000 * 1000)"
    by blast
  from n have dn: "dget d ''name'' = PStr ''Maria Lopez''" by (simp add: dget_def)
  from v have dv: "dget d ''vehicleType'' = PStr ''Unknown''" by (simp add: dget_def)
  from j dn dv have rn: "dget r ''name'' = PStr ''Maria Lopez''"
    and rv: "dget r ''vehicleType'' = PStr ''Unknown''" by (simp_all add: dget_def)
  from rt have rt': "dget r ''updatedAt'' = PDatetime 1000" "dget r ''createdAt'' = PDatetime 2000"
    by simp_all
  from e r dn dv t rn rv rt' show ?thesis by blast
qed

text \<open>
  Claim C8 as stated names the sentinel \<^verbatim>\<open>"unknown"\<close>; the record created for a candidate
  without a vehicle type holds \<^verbatim>\<open>"Unknown"\<close>.
\<close>

theorem created_vehicle_type_counterexample:
  "snd (snd (main_body [] initial_counters False PNone 1500 2750 3
       (Some [(''booking_reference'', PStr ''GYG1''), (''name'', PStr ''Maria Lopez'')])))
     = NewBooking
   \<and> dget (hd (fst (main_body [] initial_counters False PNone 1500 2750 3
       (Some [(''booking_reference'', PStr ''GYG1''), (''name'', PStr ''Maria Lopez'')]))))
       ''vehicleType'' = PStr ''Unknown''
   \<and> dget (hd (fst (main_body [] initial_counters False PNone 1500 2750 3
       (Some [(''booking_reference'', PStr ''GYG1''), (''name'', PStr ''Maria Lopez'')]))))
       ''vehicleType'' \<noteq> PStr ''unknown''"
  by (simp add: main_body_def build_doc_def insert_one_def has_nul_def find_one_def dget_def
      dset_def display_raises_def initial_counters_def)

text \<open>
  A passenger count beyond 64 bits is refused by the collection: the insert raises, the
  pass counts an error and nothing is stored.
\<close>

lemma insert_refuses_wide_count:
  "main_body [] initial_counters False PNone 1500 2750 3
       (Some [(''booking_reference'', PStr ''GYG1''),
              (''totalPassengers'', PInt 9223372036854775808)])
     = ([], initial_counters\<lparr>errors := 1\<rparr>, Errored)"
  by (simp add: main_body_def build_doc_def insert_one_def has_nul_def find_one_def dget_def
      dset_def display_raises_def initial_counters_def)

text \<open>
  An amendment of the tour date alone: the merge branch updates the stored record, whose
  name and phone number stay; the new \<open>updatedAt\<close> is kept to the millisecond.
\<close>

lemma amendment_updates_tour_date:
  "main_body
       [[(''_id'', PObjectId 1), (''booking_reference'', PStr ''GYG1''),
         (''name'', PStr ''Maria Lopez''), (''phoneNumber'', PStr ''+1555''),
         (''tourDate'', PStr ''March 1, 2026'')]]
       initial_counters True PNone 4500 5000 6
       (Some [(''booking_reference'', PStr ''GYG1''), (''tourDate'', PStr ''March 5, 2026'')])
     = ([[(''_id'', PObjectId 1), (''booking_reference'', PStr ''GYG1''),
          (''name'', PStr ''Maria Lopez''), (''phoneNumber'', PStr ''+1555''),
          (''tourDate'', PStr ''March 5, 2026''), (''updatedAt'', PDatetime 4000)]],
        initial_counters\<lparr>updated := 1, processed := 1\<rparr>, Amended [''tourDate''])"
  by (simp add: main_body_def smart_merge_def filter_greeting_def find_one_def has_ref_def
      update_one_def mongo_set_def has_nul_def dget_def dset_def metadata_fields_def
      protected_fields_def initial_counters_def)

text \<open>
  Claim C1 fails on the code. A candidate that carries both a name and a phone number, in
  a message not detected as an amendment, is inserted again when a record with its booking
  reference is already stored: the guard of the merge branch asks for an amendment or a
  missing name or phone number, and the other branch inserts. Two passes over the same
  candidate leave two records with the reference \<^verbatim>\<open>GYG1\<close>.
\<close>

theorem replay_inserts_twice:
  "main_body [] initial_counters False PNone 1000 2000 3
       (Some [(''booking_reference'', PStr ''GYG1''), (''name'', PStr ''Maria Lopez''),
              (''phoneNumber'', PStr ''+1555'')])
     = ([[(''name'', PStr ''Maria Lopez''), (''vehicleType'', PStr ''Unknown''),
          (''address'', PNone), (''phoneNumber'', PStr ''+1555''), (''tour'', PNone),
          (''tourDate'', PNone), (''tourTime'', PNone), (''totalPassengers'', PNone),
          (''specialRequirements'', PStr ''No''), (''booking_reference'', PStr ''GYG1''),
          (''platform'', PStr ''GYG''), (''updatedAt'', PDatetime 1000),
          (''createdAt'', PDatetime 2000), (''_id'', PObjectId 3)]],
        initial_counters\<lparr>saved := 1, processed := 1\<rparr>, NewBooking)
   \<and> main_body
       [[(''name'', PStr ''Maria Lopez''), (''vehicleType'', PStr ''Unknown''),
         (''address'', PNone), (''phoneNumber'', PStr ''+1555''), (''tour'', PNone),
         (''tourDate'', PNone), (''tourTime'', PNone), (''totalPassengers'', PNone),
         (''specialRequirements'', PStr ''No''), (''booking_reference'', PStr ''GYG1''),
         (''platform'', PStr ''GYG''), (''updatedAt'', PDatetime 1000),
         (''createdAt'', PDatetime 2000), (''_id'', PObjectId 3)]]
       (initial_counters\<lparr>saved := 1, processed := 1\<rparr>) False PNone 4000 5000 6
       (Some [(''booking_reference'', PStr ''GYG1''), (''name'', PStr ''Maria Lopez''),
              (''phoneNumber'', PStr ''+1555'')])
     = ([[(''name'', PStr ''Maria Lopez''), (''vehicleType'', PStr ''Unknown''),
          (''address'', PNone), (''phoneNumber'', PStr ''+1555''), (''tour'', PNone),
          (''tourDate'', PNone), (''tourTime'', PNone), (''totalPassengers'', PNone),
          (''specialRequirements'', PStr ''No''), (''booking_reference'', PStr ''GYG1''),
          (''platform'', PStr ''GYG''), (''updatedAt'', PDatetime 1000),
          (''createdAt'', PDatetime 2000), (''_id'', PObjectId 3)],
         [(''name'', PStr ''Maria Lopez''), (''vehicleType'', PStr ''Unknown''),
          (''address'', PNone), (''phoneNumber'', PStr ''+1555''), (''tour'', PNone),
          (''tourDate'', PNone), (''tourTime'', PNone), (''totalPassengers'', PNone),
          (''specialRequirements'', PStr ''No''), (''booking_reference'', PStr ''GYG1''),
          (''platform'', PStr ''GYG''), (''updatedAt'', PDatetime 4000),
          (''createdAt'', PDatetime 5000), (''_id'', PObjectId 6)]],
        initial_counters\<lparr>saved := 2, processed := 2\<rparr>, NewBooking)"
  by (simp add: main_body_def build_doc_def insert_one_def has_nul_def find_one_def has_ref_def
      dget_def dset_def display_raises_def initial_counters_def)

text \<open>
  The replay is a no-op when the merge branch is taken, here because the candidate has no
  phone number.
\<close>

lemma replay_merges_when_phone_missing:
  "main_body
       [[(''name'', PStr ''Maria Lopez''), (''vehicleType'', PStr ''Unknown''),
         (''address'', PNone), (''phoneNumber'', PNone), (''tour'', PNone),
         (''tourDate'', PNone), (''tourTime'', PNone), (''totalPassengers'', PNone),
         (''specialRequirements'', PStr ''No''), (''booking_reference'', PStr ''GYG1''),
         (''platform'', PStr ''GYG''), (''updatedAt'', PDatetime 1000),
         (''createdAt'', PDatetime 2000), (''_id'', PObjectId 3)]]
       (initial_counters\<lparr>saved := 1, processed := 1\<rparr>) False PNone 4000 5000 6
       (Some [(''booking_reference'', PStr ''GYG1''), (''name'', PStr ''Maria Lopez'')])
     = ([[(''name'', PStr ''Maria Lopez''), (''vehicleType'', PStr ''Unknown''),
          (''address'', PNone), (''phoneNumber'', PNone), (''tour'', PNone),
          (''tourDate'', PNone), (''tourTime'', PNone), (''totalPassengers'', PNone),
          (''specialRequirements'', PStr ''No''), (''booking_reference'', PStr ''GYG1''),
          (''platform'', PStr ''GYG''), (''updatedAt'', PDatetime 1000),
          (''createdAt'', PDatetime 2000), (''_id'', PObjectId 3)]],
        initial_counters\<lparr>saved := 1, processed := 2, duplicates := 1\<rparr>, Duplicate)"
  by (simp add: main_body_def smart_merge_def filter_greeting_def find_one_def has_ref_def
      dget_def dset_def metadata_fields_def protected_fields_def py_split_def is_space_def
      initial_counters_def)

text \<open>
  The merge does discard a name equal to the greeting name: the stored name stays and the
  name is not in the change-set.
\<close>

lemma merge_discards_greeting_name:
  assumes "is_dict nd" and "py_eq (dget nd ''name'') g"
    and "smart_merge ex nd g now = Inr (merged, upd)"
  shows "''name'' \<notin> set upd \<and> dget merged ''name'' = dget ex ''name''"
proof -
  from smart_merge_Inr[OF assms(3)] obtain m' where
    loop: "merge_loop ex (filter_greeting nd g) (ex, []) = Inr (m', upd)" by blast
  have notin: "''name'' \<notin> set upd"
  proof
    assume "''name'' \<in> set upd"
    from merge_loop_listed[OF loop this] obtain v where
      v: "(''name'', v) \<in> set (filter_greeting nd g)" "spec_accepts ex ''name'' v" by auto
    from dget_member[OF is_dict_filter_greeting[OF assms(1)] v(1)] assms(2)
    have "v = PNone" by (simp add: dget_filter_greeting)
    with v(2) show False by (simp add: spec_accepts_def spec_present_def)
  qed
  with smart_merge_unlisted[OF assms(3) notin] show ?thesis by simp
qed

text \<open>
  Claim C2 fails on the code. The greeting name is discarded inside \<^verbatim>\<open>smart_merge\<close> only;
  the insert branch builds the record from the candidate as it is. For a body greeting
  \<^verbatim>\<open>John\<close> and a candidate named \<^verbatim>\<open>John\<close> with no stored record, the created record is
  named \<^verbatim>\<open>John\<close>.
\<close>

theorem create_keeps_greeting_name:
  "extract_greeting_name ''Hi John, your booking GYG2 is confirmed'' = Some ''John''
   \<and> main_body [] initial_counters False
       (greeting_val (extract_greeting_name ''Hi John, your booking GYG2 is confirmed''))
       1000 2000 3
       (Some [(''booking_reference'', PStr ''GYG2''), (''name'', PStr ''John''),
              (''phoneNumber'', PStr ''+1555'')])
     = ([[(''name'', PStr ''John''), (''vehicleType'', PStr ''Unknown''),
          (''address'', PNone), (''phoneNumber'', PStr ''+1555''), (''tour'', PNone),
          (''tourDate'', PNone), (''tourTime'', PNone), (''totalPassengers'', PNone),
          (''specialRequirements'', PStr ''No''), (''booking_reference'', PStr ''GYG2''),
          (''platform'', PStr ''GYG''), (''updatedAt'', PDatetime 1000),
          (''createdAt'', PDatetime 2000), (''_id'', PObjectId 3)]],
        initial_counters\<lparr>saved := 1, processed := 1\<rparr>, NewBooking)"
proof -
  have g: "extract_greeting_name ''Hi John, your booking GYG2 is confirmed'' = Some ''John''"
    by code_simp
  show ?thesis unfolding g
    by (simp add: main_body_def build_doc_def insert_one_def has_nul_def find_one_def dget_def
        dset_def display_raises_def initial_counters_def greeting_val_def)
qed

section \<open>The parsers\<close>

lemma upper_reference_Inl:
  "upper_reference d = Inl err \<longleftrightarrow>
     err = AttributeError \<and> truthy (dget d ''booking_reference'')
       \<and> (\<forall>s. dget d ''booking_reference'' \<noteq> PStr s)"
  by (cases "dget d ''booking_reference''") (auto simp: upper_reference_def)

lemma upper_reference_Inr:
  assumes "upper_reference d = Inr p"
  shows "(\<forall>k. k \<noteq> ''booking_reference'' \<longrightarrow> dget p k = dget d k)
         \<and> (\<not> truthy (dget d ''booking_reference'') \<longrightarrow> p = d)"
  using assms
  by (cases "dget d ''booking_reference''")
    (auto simp: upper_reference_def dget_dset split: if_splits)

lemma parse_with_g4f_None:
  "parse_with_g4f response = None \<longleftrightarrow>
     (\<forall>d. response \<noteq> PDict d)
     \<or> (\<exists>d. response = PDict d \<and> truthy (dget d ''booking_reference'')
            \<and> (\<forall>s. dget d ''booking_reference'' \<noteq> PStr s))"
proof (cases response)
  case (PDict d)
  show ?thesis
  proof (cases "upper_reference d")
    case (Inl err)
    with PDict upper_reference_Inl[of d err] show ?thesis
      by (simp add: parse_with_g4f_def)
  next
    case (Inr p)
    have "\<not> (truthy (dget d ''booking_reference'')
       \<and> (\<forall>s. dget d ''booking_reference'' \<noteq> PStr s))"
      using upper_reference_Inl[of d AttributeError] Inr by auto
    with PDict Inr show ?thesis
      by (simp add: parse_with_g4f_def split: sum.splits)
  qed
qed (simp_all add: parse_with_g4f_def)

lemma parse_with_g4f_Some:
  assumes "parse_with_g4f (PDict d) = Some p"
  shows "(\<forall>k. k \<noteq> ''booking_reference'' \<and> k \<noteq> ''totalPassengers'' \<longrightarrow> dget p k = dget d k)
         \<and> (\<forall>k. \<not> truthy (dget d k) \<longrightarrow> dget p k = dget d k)"
proof (cases "upper_reference d")
  case (Inl err)
  with assms show ?thesis by (simp add: parse_with_g4f_def)
next
  case (Inr q)
  note q = upper_reference_Inr[OF Inr]
  from q have tp: "dget q ''totalPassengers'' = dget d ''totalPassengers''" by simp
  show ?thesis
  proof (cases "truthy (dget d ''totalPassengers'')")
    case False
    with assms Inr tp have "p = q" by (simp add: parse_with_g4f_def)
    with q show ?thesis by (metis)
  next
    case True
    with assms Inr tp obtain v where p: "p = dset q ''totalPassengers'' v"
      by (auto simp: parse_with_g4f_def split: sum.splits)
    have a: "\<forall>k. k \<noteq> ''booking_reference'' \<and> k \<noteq> ''totalPassengers'' \<longrightarrow> dget p k = dget d k"
      using q by (simp add: p dget_dset)
    have b: "\<forall>k. \<not> truthy (dget d k) \<longrightarrow> dget p k = dget d k"
    proof (intro allI impI)
      fix k assume f: "\<not> truthy (dget d k)"
      with True have k: "k \<noteq> ''totalPassengers''" by auto
      show "dget p k = dget d k"
      proof (cases "k = ''booking_reference''")
        case True
        with f q have "q = d" by simp
        with k show ?thesis by (simp add: p dget_dset)
      next
        case False
        with k a show ?thesis by simp
      qed
    qed
    from a b show ?thesis by simp
  qed
qed

text \<open>In \<^verbatim>\<open>parse_with_g4f\<close> a count that cannot be converted becomes \<^verbatim>\<open>None\<close>.\<close>

lemma parse_with_g4f_bad_count:
  assumes "upper_reference d = Inr q" and "truthy (dget q ''totalPassengers'')"
    and "py_int (dget q ''totalPassengers'') = Inl err"
  shows "parse_with_g4f (PDict d) = Some (dset q ''totalPassengers'' PNone)"
  using assms by (simp add: parse_with_g4f_def)

text \<open>In \<^verbatim>\<open>parse_with_huggingface\<close> the same count makes the whole parse fail.\<close>

lemma parse_with_huggingface_bad_count:
  assumes "upper_reference d = Inr q" and "truthy (dget q ''totalPassengers'')"
    and "py_int (dget q ''totalPassengers'') = Inl err"
  shows "parse_with_huggingface (PDict d) = None"
  using assms by (simp add: parse_with_huggingface_def)

text \<open>
  Claim C3 fails on the code. \<^verbatim>\<open>parse_with_g4f\<close> guards the conversion of the passenger
  count and stores \<^verbatim>\<open>None\<close> when it fails; \<^verbatim>\<open>parse_with_huggingface\<close> converts without a
  guard, so the exception reaches the handler of the whole parse, which returns \<^verbatim>\<open>None\<close>:
  with that service alone the extraction fails.
\<close>

theorem huggingface_bad_count_fails:
  "parse_with_g4f (PDict [(''booking_reference'', PStr ''gyg1''),
                          (''name'', PStr ''Maria Lopez''), (''totalPassengers'', PStr ''two'')])
     = Some [(''booking_reference'', PStr ''GYG1''), (''name'', PStr ''Maria Lopez''),
             (''totalPassengers'', PNone)]
   \<and> parse_with_huggingface (PDict [(''booking_reference'', PStr ''gyg1''),
                          (''name'', PStr ''Maria Lopez''), (''totalPassengers'', PStr ''two'')])
     = None
   \<and> parse_with_ai False None
       (Some (PDict [(''booking_reference'', PStr ''gyg1''),
                     (''name'', PStr ''Maria Lopez''), (''totalPassengers'', PStr ''two'')]))
     = None
   \<and> main_body [] initial_counters False PNone 1 2 3
       (parse_with_ai False None
         (Some (PDict [(''booking_reference'', PStr ''gyg1''),
                       (''name'', PStr ''Maria Lopez''), (''totalPassengers'', PStr ''two'')])))
     = ([], initial_counters\<lparr>errors := 1\<rparr>, ParseFailed)"
proof -
  have i: "int_of_str ''two'' = None" by code_simp
  have up: "py_upper ''gyg1'' = ''GYG1''" by code_simp
  have u: "upper_reference [(''booking_reference'', PStr ''gyg1''),
                          (''name'', PStr ''Maria Lopez''), (''totalPassengers'', PStr ''two'')]
      = Inr [(''booking_reference'', PStr ''GYG1''),
                          (''name'', PStr ''Maria Lopez''), (''totalPassengers'', PStr ''two'')]"
    by (simp add: upper_reference_def dget_def dset_def up)
  have g: "parse_with_g4f (PDict [(''booking_reference'', PStr ''gyg1''),
                          (''name'', PStr ''Maria Lopez''), (''totalPassengers'', PStr ''two'')])
     = Some [(''booking_reference'', PStr ''GYG1''), (''name'', PStr ''Maria Lopez''),
             (''totalPassengers'', PNone)]"
    by (simp add: parse_with_g4f_def u i dget_def dset_def)
  have h: "parse_with_huggingface (PDict [(''booking_reference'', PStr ''gyg1''),
                          (''name'', PStr ''Maria Lopez''), (''totalPassengers'', PStr ''two'')])
     = None"
    by (simp add: parse_with_huggingface_def u i dget_def)
  have a: "parse_with_ai False None
       (Some (PDict [(''booking_reference'', PStr ''gyg1''),
                     (''name'', PStr ''Maria Lopez''), (''totalPassengers'', PStr ''two'')]))
     = None"
    by (simp add: parse_with_ai_def h)
  show ?thesis unfolding a g h by (simp add: main_body_def initial_counters_def)
qed

text \<open>
  Claim C7 fails on the code. The parsers leave an empty string as it is, and the insert
  branch stores it: a candidate with an empty name creates a record whose name is the
  empty string.
\<close>

theorem empty_string_persisted_counterexample:
  "parse_with_g4f (PDict [(''booking_reference'', PStr ''gyg1''), (''name'', PStr '''')])
     = Some [(''booking_reference'', PStr ''GYG1''), (''name'', PStr '''')]
   \<and> snd (snd (main_body [] initial_counters False PNone 1 2 3
        (parse_with_g4f (PDict [(''booking_reference'', PStr ''gyg1''), (''name'', PStr '''')]))))
     = NewBooking
   \<and> dget (hd (fst (main_body [] initial_counters False PNone 1 2 3
        (parse_with_g4f (PDict [(''booking_reference'', PStr ''gyg1''), (''name'', PStr '''')])))))
       ''name'' = PStr ''''"
proof -
  have up: "py_upper ''gyg1'' = ''GYG1''" by code_simp
  have g: "parse_with_g4f (PDict [(''booking_reference'', PStr ''gyg1''), (''name'', PStr '''')])
     = Some [(''booking_reference'', PStr ''GYG1''), (''name'', PStr '''')]"
    by (simp add: parse_with_g4f_def upper_reference_def dget_def dset_def up)
  show ?thesis unfolding g
    by (simp add: main_body_def build_doc_def insert_one_def has_nul_def find_one_def dget_def
        dset_def display_raises_def initial_counters_def)
qed

text \<open>
  Claim C7, as amended. \<^verbatim>\<open>parse_with_g4f\<close> never raises: it returns a candidate, or
  \<^verbatim>\<open>None\<close> exactly when the decoded response is not an object or its booking reference is
  truthy and not a string. In the candidate every field but the booking reference and the
  passenger count is the response's, and every falsy value, null and the empty string among
  them, is passed through as it is. A merge skips null and the empty string: a field of the
  merged document (other than \<open>updatedAt\<close>) that differs from the stored one is present.
\<close>

theorem normalisation_passes_falsy_through:
  "(parse_with_g4f response = None \<longleftrightarrow>
      (\<forall>d. response \<noteq> PDict d)
      \<or> (\<exists>d. response = PDict d \<and> truthy (dget d ''booking_reference'')
             \<and> (\<forall>s. dget d ''booking_reference'' \<noteq> PStr s)))
   \<and> (parse_with_g4f (PDict d) = Some p \<longrightarrow>
        (\<forall>k. k \<noteq> ''booking_reference'' \<and> k \<noteq> ''totalPassengers'' \<longrightarrow> dget p k = dget d k)
        \<and> (\<forall>k. \<not> truthy (dget d k) \<longrightarrow> dget p k = dget d k))
   \<and> (smart_merge existing_booking new_data greeting_name now = Inr (merged, updated_fields)
        \<and> k \<noteq> ''updatedAt'' \<and> dget merged k \<noteq> dget existing_booking k
        \<longrightarrow> spec_present (dget merged k))"
proof (intro conjI impI)
  show "parse_with_g4f response = None \<longleftrightarrow>
      (\<forall>d. response \<noteq> PDict d)
      \<or> (\<exists>d. response = PDict d \<and> truthy (dget d ''booking_reference'')
             \<and> (\<forall>s. dget d ''booking_reference'' \<noteq> PStr s))"
    by (rule parse_with_g4f_None)
next
  assume "parse_with_g4f (PDict d) = Some p"
  from parse_with_g4f_Some[OF this]
  show "\<forall>k. k \<noteq> ''booking_reference'' \<and> k \<noteq> ''totalPassengers'' \<longrightarrow> dget p k = dget d k"
    and "\<forall>k. \<not> truthy (dget d k) \<longrightarrow> dget p k = dget d k" by simp_all
next
  assume a: "smart_merge existing_booking new_data greeting_name now = Inr (merged, updated_fields)
        \<and> k \<noteq> ''updatedAt'' \<and> dget merged k \<noteq> dget existing_booking k"
  from smart_merge_Inr[of existing_booking new_data greeting_name now merged updated_fields] a
  obtain m' where
    loop: "merge_loop existing_booking (filter_greeting new_data greeting_name)
             (existing_booking, []) = Inr (m', updated_fields)"
    and merged: "merged = dset m' ''updatedAt'' (PDatetime now)" by blast
  from a merged have "dget m' k \<noteq> dget existing_booking k" by (auto simp: dget_dset)
  from merge_loop_changed[OF loop this] a merged show "spec_present (dget merged k)"
    by (auto simp: dget_dset spec_accepts_def)
qed

theorem normalisation_passes_falsy_through_witness:
  "parse_with_g4f (PInt 3) = None
   \<and> parse_with_g4f (PDict [(''booking_reference'', PStr ''gyg1''), (''name'', PStr '''')])
       = Some [(''booking_reference'', PStr ''GYG1''), (''name'', PStr '''')]
   \<and> dget [(''booking_reference'', PStr ''GYG1''), (''name'', PStr '''')] ''name''
       = dget [(''booking_reference'', PStr ''gyg1''), (''name'', PStr '''')] ''name''
   \<and> smart_merge
         [(''_id'', PObjectId 1), (''booking_reference'', PStr ''GYG1''),
          (''name'', PStr ''Maria Lopez''), (''tourDate'', PStr ''March 1, 2026'')]
         [(''booking_reference'', PStr ''GYG1''), (''name'', PStr ''''),
          (''tourDate'', PStr ''March 5, 2026'')] PNone 9
       = Inr ([(''_id'', PObjectId 1), (''booking_reference'', PStr ''GYG1''),
               (''name'', PStr ''Maria Lopez''), (''tourDate'', PStr ''March 5, 2026''),
               (''updatedAt'', PDatetime 9)], [''tourDate''])
   \<and> spec_present (dget [(''_id'', PObjectId 1), (''booking_reference'', PStr ''GYG1''),
               (''name'', PStr ''Maria Lopez''), (''tourDate'', PStr ''March 5, 2026''),
               (''updatedAt'', PDatetime 9)] ''tourDate'')"
proof -
  let ?d = "[(''booking_reference'', PStr ''gyg1''), (''name'', PStr '''')]"
  let ?p = "[(''booking_reference'', PStr ''GYG1''), (''name'', PStr '''')]"
  let ?ex = "[(''_id'', PObjectId 1), (''booking_reference'', PStr ''GYG1''),
              (''name'', PStr ''Maria Lopez''), (''tourDate'', PStr ''March 1, 2026'')]"
  let ?nd = "[(''booking_reference'', PStr ''GYG1''), (''name'', PStr ''''),
              (''tourDate'', PStr ''March 5, 2026'')]"
  let ?m = "[(''_id'', PObjectId 1), (''booking_reference'', PStr ''GYG1''),
             (''name'', PStr ''Maria Lopez''), (''tourDate'', PStr ''March 5, 2026''),
             (''updatedAt'', PDatetime 9)]"
  have up: "py_upper ''gyg1'' = ''GYG1''" by code_simp
  have g: "parse_with_g4f (PDict ?d) = Some ?p"
    by (simp add: parse_with_g4f_def upper_reference_def dget_def dset_def up)
  have sm: "smart_merge ?ex ?nd PNone 9 = Inr (?m, [''tourDate''])"
    by (simp add: smart_merge_def filter_greeting_def dget_def dset_def metadata_fields_def
        protected_fields_def)
  have f: "\<not> truthy (dget ?d ''name'')" by (simp add: dget_def)
  have diff: "''tourDate'' \<noteq> ''updatedAt'' \<and> dget ?m ''tourDate'' \<noteq> dget ?ex ''tourDate''"
    by (simp add: dget_def)
  note t = normalisation_passes_falsy_through[where response = "PInt 3" and d = ?d and p = ?p
      and existing_booking = ?ex and new_data = ?nd and greeting_name = PNone and now = 9
      and merged = ?m and updated_fields = "[''tourDate'']" and k = "''tourDate''"]
  from t have 1: "parse_with_g4f (PInt 3) = None" by simp
  from t g f have 2: "dget ?p ''name'' = dget ?d ''name''" by blast
  from t sm diff have 3: "spec_present (dget ?m ''tourDate'')" by blast
  from 1 g 2 sm 3 show ?thesis by blast
qed

section \<open>The greeting filter\<close>

lemma upper_not_space: "is_upper c \<Longrightarrow> \<not> is_space c"
  by (auto simp: is_upper_def is_space_def)

lemma lower_not_space: "is_lower c \<Longrightarrow> \<not> is_space c"
  by (auto simp: is_lower_def is_space_def)

lemma re_search_Some:
  "re_search m xs = Some n \<Longrightarrow> \<exists>pre s. xs = pre @ s \<and> m s = Some n"
proof (induction xs)
  case Nil
  then show ?case by simp
next
  case (Cons c cs)
  show ?case
  proof (cases "m (c # cs)")
    case None
    with Cons.prems have "re_search m cs = Some n" by simp
    from Cons.IH[OF this] obtain pre s where "cs = pre @ s" "m s = Some n" by blast
    then have "c # cs = (c # pre) @ s \<and> m s = Some n" by simp
    then show ?thesis by blast
  next
    case (Some r)
    with Cons.prems have "c # cs = [] @ (c # cs) \<and> m (c # cs) = Some n" by simp
    then show ?thesis by blast
  qed
qed

lemma re_search_None:
  "re_search m (pre @ s) = None \<Longrightarrow> m s = None"
proof (induction pre)
  case Nil
  then show ?case by (cases s) (auto split: option.splits)
next
  case (Cons c pre)
  then show ?case by (auto split: option.splits)
qed

lemma match_spaces_Some:
  "match_spaces xs = Some (ws, r) \<Longrightarrow> xs = ws @ r \<and> spec_spaces ws"
  by (auto simp: match_spaces_def spec_spaces_def list_all_iff split: if_splits
      dest: set_takeWhileD)

lemma match_spaces_append:
  assumes "spec_spaces ws" and "r = [] \<or> \<not> is_space (hd r)"
  shows "match_spaces (ws @ r) = Some (ws, r)"
proof -
  from assms(1) have all: "\<forall>x \<in> set ws. is_space x" and ne: "ws \<noteq> []"
    by (simp_all add: spec_spaces_def list_all_iff)
  from assms(2) have tr: "takeWhile is_space r = []" and dr: "dropWhile is_space r = r"
    by (cases r; auto)+
  from all have "takeWhile is_space (ws @ r) = ws @ takeWhile is_space r"
    and "dropWhile is_space (ws @ r) = dropWhile is_space r"
    by (simp_all add: takeWhile_append2 dropWhile_append2)
  with tr dr ne show ?thesis by (simp add: match_spaces_def)
qed

lemma match_word_Some:
  "match_word xs = Some (w, r) \<Longrightarrow> xs = w @ r \<and> spec_cap_word w"
  by (cases xs)
    (auto simp: match_word_def spec_cap_word_def list_all_iff split: if_splits
      dest: set_takeWhileD)

lemma cap_word_shape:
  assumes "spec_cap_word w"
  shows "\<exists>c d ds. w = c # d # ds \<and> is_upper c \<and> is_lower d \<and> is_lower (last w)"
proof -
  from assms obtain c cs where w: "w = c # cs" "is_upper c" "cs \<noteq> []" "list_all is_lower cs"
    by (cases w) (auto simp: spec_cap_word_def)
  then obtain d ds where cs: "cs = d # ds" by (cases cs) auto
  from w(3,4) have "is_lower (last cs)" by (simp add: list_all_iff)
  with w cs show ?thesis by auto
qed

lemma match_word_append:
  assumes "spec_cap_word w"
  shows "match_word (w @ r) \<noteq> None"
proof -
  from cap_word_shape[OF assms] obtain c d ds where
    "w = c # d # ds" "is_upper c" "is_lower d" by blast
  then show ?thesis by (simp add: match_word_def)
qed

lemma match_name_Some:
  assumes "match_name xs = Some n"
  shows "\<exists>r. xs = n @ r \<and> spec_name n"
proof -
  from assms obtain w1 r1 where w1: "match_word xs = Some (w1, r1)"
    by (auto simp: match_name_def split: option.splits)
  note a = match_word_Some[OF w1]
  show ?thesis
  proof (cases "match_spaces r1")
    case None
    with assms w1 have "n = w1" by (simp add: match_name_def)
    with a show ?thesis by (auto simp: spec_name_def)
  next
    case (Some p)
    obtain ws r2 where p: "p = (ws, r2)" by (cases p)
    note b = match_spaces_Some[OF Some[unfolded p]]
    show ?thesis
    proof (cases "match_word r2")
      case None
      with assms w1 Some p have "n = w1" by (simp add: match_name_def)
      with a show ?thesis by (auto simp: spec_name_def)
    next
      case Some2: (Some q)
      obtain w2 r3 where q: "q = (w2, r3)" by (cases q)
      note c = match_word_Some[OF Some2[unfolded q]]
      from assms w1 Some p Some2 q have n: "n = w1 @ ws @ w2" by (simp add: match_name_def)
      from a b c have "xs = n @ r3" by (simp add: n)
      moreover from a b c have "spec_name n" unfolding spec_name_def n by blast
      ultimately show ?thesis by blast
    qed
  qed
qed

lemma spec_name_starts:
  assumes "spec_name n"
  shows "\<exists>w t. n = w @ t \<and> spec_cap_word w"
  using assms unfolding spec_name_def
proof
  assume "spec_cap_word n"
  then have "n = n @ [] \<and> spec_cap_word n" by simp
  then show ?thesis by blast
next
  assume "\<exists>w1 ws w2. n = w1 @ ws @ w2 \<and> spec_cap_word w1 \<and> spec_spaces ws \<and> spec_cap_word w2"
  then show ?thesis by blast
qed

lemma spec_name_ends:
  assumes "spec_name n"
  shows "n \<noteq> [] \<and> is_upper (hd n) \<and> is_lower (last n)"
  using assms unfolding spec_name_def
proof
  assume "spec_cap_word n"
  from cap_word_shape[OF this] show ?thesis by auto
next
  assume "\<exists>w1 ws w2. n = w1 @ ws @ w2 \<and> spec_cap_word w1 \<and> spec_spaces ws \<and> spec_cap_word w2"
  then obtain w1 ws w2 where n: "n = w1 @ ws @ w2" and w: "spec_cap_word w1" "spec_cap_word w2"
    by blast
  from cap_word_shape[OF w(1)] cap_word_shape[OF w(2)] show ?thesis unfolding n by auto
qed

lemma match_name_append:
  assumes "spec_name n"
  shows "match_name (n @ r) \<noteq> None"
proof -
  from spec_name_starts[OF assms] obtain w t where n: "n = w @ t" and w: "spec_cap_word w"
    by blast
  from match_word_append[OF w, of "t @ r"] show ?thesis
    by (auto simp: match_name_def n split: option.splits)
qed

lemma py_strip_name:
  assumes "spec_name n"
  shows "py_strip n = n"
proof -
  from spec_name_ends[OF assms] have ne: "n \<noteq> []" and h: "\<not> is_space (hd n)"
    and l: "\<not> is_space (last n)"
    by (auto dest: upper_not_space lower_not_space)
  from ne h have 1: "dropWhile is_space n = n" by (cases n) auto
  from ne l have 2: "dropWhile is_space (rev n) = rev n"
    by (cases "rev n") (auto simp: last_rev[symmetric] simp del: last_rev)
  show ?thesis by (simp add: py_strip_def 1 2)
qed

lemma match_after_Some:
  assumes "match_after lit xs = Some n"
  shows "\<exists>ws r. xs = lit @ ws @ n @ r \<and> spec_spaces ws \<and> spec_name n"
proof -
  from assms obtain t where xs: "xs = lit @ t"
    by (auto simp: match_after_def prefix_def split: if_splits)
  with assms obtain ws r where sp: "match_spaces t = Some (ws, r)" and nm: "match_name r = Some n"
    by (auto simp: match_after_def split: option.splits)
  from match_spaces_Some[OF sp] match_name_Some[OF nm] xs show ?thesis by auto
qed

lemma match_after_append:
  assumes "spec_spaces ws" and "spec_name n"
  shows "match_after lit (lit @ ws @ n @ r) \<noteq> None"
proof -
  from spec_name_ends[OF assms(2)] have "\<not> is_space (hd (n @ r))"
    by (auto dest: upper_not_space)
  with match_spaces_append[OF assms(1), of "n @ r"]
  have "match_spaces (ws @ n @ r) = Some (ws, n @ r)" by simp
  with match_name_append[OF assms(2), of r] show ?thesis
    by (simp add: match_after_def)
qed

lemma first_match_Some:
  "first_match lits xs = Some n \<Longrightarrow> \<exists>lit \<in> set lits. match_after lit xs = Some n"
  by (induction lits) (auto split: option.splits)

lemma first_match_None:
  "first_match lits xs = None \<Longrightarrow> lit \<in> set lits \<Longrightarrow> match_after lit xs = None"
  by (induction lits) (auto split: option.splits)

lemma match_greeting1_Some:
  assumes "match_greeting1 xs = Some n"
  shows "\<exists>sal ws r. xs = sal @ ws @ n @ r \<and> spec_salutation sal \<and> spec_spaces ws
           \<and> spec_name n"
proof -
  from first_match_Some[OF assms[unfolded match_greeting1_def]] obtain lit where
    lit: "lit \<in> set [''Hi'', ''Hello'', ''Dear'', ''Hey'']" and m: "match_after lit xs = Some n"
    by blast
  from lit have "spec_salutation lit" unfolding spec_salutation_def by blast
  with match_after_Some[OF m] show ?thesis by blast
qed

lemma match_greeting1_append:
  assumes "sal \<in> set [''Hi'', ''Hello'', ''Dear'', ''Hey'']" and "spec_spaces ws"
    and "spec_name n"
  shows "match_greeting1 (sal @ ws @ n @ r) \<noteq> None"
proof
  assume "match_greeting1 (sal @ ws @ n @ r) = None"
  from first_match_None[OF this[unfolded match_greeting1_def] assms(1)]
    match_after_append[OF assms(2,3), of sal r]
  show False by simp
qed

lemma match_greeting2_Some:
  assumes "match_greeting2 xs = Some n"
  shows "\<exists>sal ws r. xs = sal @ ws @ n @ r \<and> spec_salutation sal \<and> spec_spaces ws
           \<and> spec_name n"
proof -
  from assms obtain t where xs: "xs = ''Good'' @ t"
    by (auto simp: match_greeting2_def prefix_def split: if_splits)
  with assms obtain ws0 r0 where sp: "match_spaces t = Some (ws0, r0)"
    and fm: "first_match [''morning'', ''afternoon'', ''evening''] r0 = Some n"
    by (auto simp: match_greeting2_def split: option.splits)
  from first_match_Some[OF fm] obtain lit where
    lit: "lit \<in> set [''morning'', ''afternoon'', ''evening'']"
    and m: "match_after lit r0 = Some n" by blast
  from match_after_Some[OF m] obtain ws r where
    r0: "r0 = lit @ ws @ n @ r" and ok: "spec_spaces ws" "spec_name n" by blast
  from match_spaces_Some[OF sp] have t: "t = ws0 @ r0" and ws0: "spec_spaces ws0" by simp_all
  have "spec_salutation (''Good'' @ ws0 @ lit)"
    unfolding spec_salutation_def using ws0 lit by blast
  moreover have "xs = (''Good'' @ ws0 @ lit) @ ws @ n @ r"
    unfolding xs t r0 by simp
  ultimately show ?thesis using ok by blast
qed

lemma match_greeting2_append:
  assumes "spec_spaces ws0" and "t \<in> set [''morning'', ''afternoon'', ''evening'']"
    and "spec_spaces ws" and "spec_name n"
  shows "match_greeting2 ((''Good'' @ ws0 @ t) @ ws @ n @ r) \<noteq> None"
proof
  assume a: "match_greeting2 ((''Good'' @ ws0 @ t) @ ws @ n @ r) = None"
  from assms(2) have "\<not> is_space (hd (t @ ws @ n @ r))"
    by (auto simp: is_space_def)
  with match_spaces_append[OF assms(1), of "t @ ws @ n @ r"]
  have sp: "match_spaces (ws0 @ t @ ws @ n @ r) = Some (ws0, t @ ws @ n @ r)" by simp
  from a have "first_match [''morning'', ''afternoon'', ''evening''] (t @ ws @ n @ r) = None"
    using sp by (simp add: match_greeting2_def)
  from first_match_None[OF this assms(2)] match_after_append[OF assms(3,4), of t r]
  show False by simp
qed

lemma extract_greeting_name_Some:
  assumes "extract_greeting_name body = Some n"
  shows "spec_greets (take 500 body) n"
proof -
  from assms obtain n0 where n: "n = py_strip n0"
    and s: "re_search match_greeting1 (take 500 body) = Some n0
            \<or> re_search match_greeting2 (take 500 body) = Some n0"
    by (auto simp: extract_greeting_name_def split: option.splits)
  from s obtain pre t where p: "take 500 body = pre @ t"
    and m: "match_greeting1 t = Some n0 \<or> match_greeting2 t = Some n0"
    by (auto dest: re_search_Some)
  from m match_greeting1_Some match_greeting2_Some obtain sal ws r where
    t: "t = sal @ ws @ n0 @ r" and ok: "spec_salutation sal" "spec_spaces ws" "spec_name n0"
    by blast
  from py_strip_name[OF ok(3)] n have "n = n0" by simp
  with p t ok show ?thesis unfolding spec_greets_def by blast
qed

lemma extract_greeting_name_None:
  assumes "extract_greeting_name body = None"
  shows "\<not> spec_greets (take 500 body) n"
proof
  assume "spec_greets (take 500 body) n"
  then obtain pre sal ws post where p: "take 500 body = pre @ sal @ ws @ n @ post"
    and ok: "spec_salutation sal" "spec_spaces ws" "spec_name n"
    unfolding spec_greets_def by blast
  from assms have s1: "re_search match_greeting1 (take 500 body) = None"
    and s2: "re_search match_greeting2 (take 500 body) = None"
    by (auto simp: extract_greeting_name_def split: option.splits)
  from re_search_None[OF s1[unfolded p]] have m1: "match_greeting1 (sal @ ws @ n @ post) = None" .
  from re_search_None[OF s2[unfolded p]] have m2: "match_greeting2 (sal @ ws @ n @ post) = None" .
  from ok(1) show False unfolding spec_salutation_def
  proof
    assume "sal \<in> set [''Hi'', ''Hello'', ''Dear'', ''Hey'']"
    from match_greeting1_append[OF this ok(2,3), of post] m1 show False by simp
  next
    assume "\<exists>ws0 t. sal = ''Good'' @ ws0 @ t \<and> spec_spaces ws0
              \<and> t \<in> set [''morning'', ''afternoon'', ''evening'']"
    then obtain ws0 t where sal: "sal = ''Good'' @ ws0 @ t" and w: "spec_spaces ws0"
      and t: "t \<in> set [''morning'', ''afternoon'', ''evening'']" by blast
    from match_greeting2_append[OF w t ok(2,3), of post] m2 show False unfolding sal by simp
  qed
qed

subsection \<open>The captured name\<close>

lemma match_word_iff: "match_word xs = Some (w, r) \<longleftrightarrow> spec_word_at xs w r"
proof
  assume m: "match_word xs = Some (w, r)"
  then obtain c cs where xs: "xs = c # cs" and r: "r = dropWhile is_lower cs"
    by (cases xs) (auto simp: match_word_def split: if_splits)
  have "r = [] \<or> \<not> is_lower (hd r)" unfolding r using hd_dropWhile by blast
  with match_word_Some[OF m] show "spec_word_at xs w r" by (simp add: spec_word_at_def)
next
  assume "spec_word_at xs w r"
  then have xs: "xs = w @ r" and w: "spec_cap_word w" and r: "r = [] \<or> \<not> is_lower (hd r)"
    by (simp_all add: spec_word_at_def)
  from w obtain c cs where wc: "w = c # cs" and c: "is_upper c" and cs: "cs \<noteq> []"
    and low: "\<forall>x \<in> set cs. is_lower x"
    by (cases w) (auto simp: spec_cap_word_def list_all_iff)
  from r have tr: "takeWhile is_lower r = []" and dr: "dropWhile is_lower r = r"
    by (cases r; auto)+
  from low have "takeWhile is_lower (cs @ r) = cs @ takeWhile is_lower r"
    and "dropWhile is_lower (cs @ r) = dropWhile is_lower r"
    by (simp_all add: takeWhile_append2 dropWhile_append2)
  with tr dr c cs show "match_word xs = Some (w, r)"
    by (simp add: match_word_def xs wc)
qed

lemma match_spaces_iff:
  "match_spaces xs = Some (ws, r) \<longleftrightarrow>
     xs = ws @ r \<and> spec_spaces ws \<and> (r = [] \<or> \<not> is_space (hd r))"
proof
  assume m: "match_spaces xs = Some (ws, r)"
  then have "r = dropWhile is_space xs" by (auto simp: match_spaces_def split: if_splits)
  then have "r = [] \<or> \<not> is_space (hd r)" using hd_dropWhile by blast
  with match_spaces_Some[OF m] show "xs = ws @ r \<and> spec_spaces ws \<and> (r = [] \<or> \<not> is_space (hd r))"
    by simp
next
  assume "xs = ws @ r \<and> spec_spaces ws \<and> (r = [] \<or> \<not> is_space (hd r))"
  then show "match_spaces xs = Some (ws, r)" using match_spaces_append by simp
qed

lemma cap_word_head: "spec_cap_word w \<Longrightarrow> w \<noteq> [] \<and> is_upper (hd w)"
  by (cases w) (auto simp: spec_cap_word_def)

lemma spaces_then_word:
  assumes "spec_spaces ws" and "spec_cap_word w"
  shows "match_spaces (ws @ w @ r) = Some (ws, w @ r)"
proof -
  from cap_word_head[OF assms(2)] have "\<not> is_space (hd (w @ r))"
    by (auto dest: upper_not_space)
  with match_spaces_append[OF assms(1), of "w @ r"] show ?thesis by simp
qed

lemma match_name_iff: "match_name xs = Some n \<longleftrightarrow> spec_capture xs n"
proof
  assume a: "match_name xs = Some n"
  then obtain w1 r1 where w1: "match_word xs = Some (w1, r1)"
    by (auto simp: match_name_def split: option.splits)
  then have at1: "spec_word_at xs w1 r1" by (simp add: match_word_iff)
  show "spec_capture xs n"
  proof (cases "\<exists>ws w2 r2. r1 = ws @ w2 @ r2 \<and> spec_spaces ws \<and> spec_cap_word w2")
    case False
    have "n = w1"
    proof (cases "match_spaces r1")
      case None
      with a w1 show ?thesis by (simp add: match_name_def)
    next
      case (Some p)
      obtain ws r2 where p: "p = (ws, r2)" by (cases p)
      note sp = match_spaces_Some[OF Some[unfolded p]]
      have "match_word r2 = None"
      proof (cases "match_word r2")
        case None
        then show ?thesis .
      next
        case Some2: (Some q)
        obtain w2 r3 where q: "q = (w2, r3)" by (cases q)
        from match_word_Some[OF Some2[unfolded q]] sp
        have "r1 = ws @ w2 @ r3 \<and> spec_spaces ws \<and> spec_cap_word w2" by simp
        with False show ?thesis by blast
      qed
      with a w1 Some p show ?thesis by (simp add: match_name_def)
    qed
    with at1 False show ?thesis unfolding spec_capture_def by blast
  next
    case True
    then obtain ws w2 r2 where r1: "r1 = ws @ w2 @ r2" and ws: "spec_spaces ws"
      and w2: "spec_cap_word w2" by blast
    from spaces_then_word[OF ws w2, of r2] have sp: "match_spaces r1 = Some (ws, w2 @ r2)"
      by (simp add: r1)
    from match_word_append[OF w2, of r2] obtain w2' r3 where
      mw: "match_word (w2 @ r2) = Some (w2', r3)" by auto
    then have at2: "spec_word_at (w2 @ r2) w2' r3" by (simp add: match_word_iff)
    then have eq: "w2 @ r2 = w2' @ r3" by (simp add: spec_word_at_def)
    from a w1 sp mw have n: "n = w1 @ ws @ w2'" by (simp add: match_name_def)
    have "r1 = ws @ w2' @ r3" using r1 eq by simp
    moreover from at2 eq have "spec_word_at (w2' @ r3) w2' r3" by simp
    ultimately show ?thesis unfolding spec_capture_def using at1 ws n by blast
  qed
next
  assume "spec_capture xs n"
  then obtain w1 r1 where at1: "spec_word_at xs w1 r1"
    and alt: "(\<exists>ws w2 r2. r1 = ws @ w2 @ r2 \<and> spec_spaces ws \<and> spec_word_at (w2 @ r2) w2 r2
                 \<and> n = w1 @ ws @ w2)
              \<or> (\<not> (\<exists>ws w2 r2. r1 = ws @ w2 @ r2 \<and> spec_spaces ws \<and> spec_cap_word w2)
                   \<and> n = w1)"
    unfolding spec_capture_def by blast
  from at1 have w1: "match_word xs = Some (w1, r1)" by (simp add: match_word_iff)
  from alt show "match_name xs = Some n"
  proof
    assume "\<exists>ws w2 r2. r1 = ws @ w2 @ r2 \<and> spec_spaces ws \<and> spec_word_at (w2 @ r2) w2 r2
                 \<and> n = w1 @ ws @ w2"
    then obtain ws w2 r2 where r1: "r1 = ws @ w2 @ r2" and ws: "spec_spaces ws"
      and at2: "spec_word_at (w2 @ r2) w2 r2" and n: "n = w1 @ ws @ w2" by blast
    from at2 have w2: "spec_cap_word w2" by (simp add: spec_word_at_def)
    from spaces_then_word[OF ws w2, of r2] have sp: "match_spaces r1 = Some (ws, w2 @ r2)"
      by (simp add: r1)
    from at2 have mw: "match_word (w2 @ r2) = Some (w2, r2)" by (simp add: match_word_iff)
    from w1 sp mw n show ?thesis by (simp add: match_name_def)
  next
    assume no: "\<not> (\<exists>ws w2 r2. r1 = ws @ w2 @ r2 \<and> spec_spaces ws \<and> spec_cap_word w2) \<and> n = w1"
    show ?thesis
    proof (cases "match_spaces r1")
      case None
      with w1 no show ?thesis by (simp add: match_name_def)
    next
      case (Some p)
      obtain ws r2 where p: "p = (ws, r2)" by (cases p)
      note sp = match_spaces_Some[OF Some[unfolded p]]
      have "match_word r2 = None"
      proof (cases "match_word r2")
        case None
        then show ?thesis .
      next
        case Some2: (Some q)
        obtain w2 r3 where q: "q = (w2, r3)" by (cases q)
        from match_word_Some[OF Some2[unfolded q]] sp
        have "r1 = ws @ w2 @ r3 \<and> spec_spaces ws \<and> spec_cap_word w2" by simp
        with no show ?thesis by blast
      qed
      with w1 Some p no show ?thesis by (simp add: match_name_def)
    qed
  qed
qed

lemma capture_head: "spec_capture xs n \<Longrightarrow> xs \<noteq> [] \<and> is_upper (hd xs)"
  unfolding spec_capture_def spec_word_at_def using cap_word_head by fastforce

lemma match_after_iff:
  "match_after lit xs = Some n \<longleftrightarrow>
     (\<exists>ws rest. xs = lit @ ws @ rest \<and> spec_spaces ws \<and> spec_capture rest n)"
proof
  assume a: "match_after lit xs = Some n"
  then obtain t where xs: "xs = lit @ t"
    by (auto simp: match_after_def prefix_def split: if_splits)
  with a obtain ws r where sp: "match_spaces t = Some (ws, r)" and nm: "match_name r = Some n"
    by (auto simp: match_after_def split: option.splits)
  from match_spaces_Some[OF sp] nm xs
  show "\<exists>ws rest. xs = lit @ ws @ rest \<and> spec_spaces ws \<and> spec_capture rest n"
    by (auto simp: match_name_iff)
next
  assume "\<exists>ws rest. xs = lit @ ws @ rest \<and> spec_spaces ws \<and> spec_capture rest n"
  then obtain ws rest where xs: "xs = lit @ ws @ rest" and ws: "spec_spaces ws"
    and cap: "spec_capture rest n" by blast
  from capture_head[OF cap] have "\<not> is_space (hd rest)" by (auto dest: upper_not_space)
  with match_spaces_append[OF ws, of rest] have "match_spaces (ws @ rest) = Some (ws, rest)"
    by simp
  with cap show "match_after lit xs = Some n"
    by (simp add: match_after_def xs match_name_iff)
qed

lemma match_after_prefix: "match_after lit xs = Some n \<Longrightarrow> prefix lit xs"
  by (auto simp: match_after_def split: if_splits)

lemma first_match_iff:
  assumes "\<forall>l \<in> set lits. \<forall>l' \<in> set lits. prefix l xs \<and> prefix l' xs \<longrightarrow> l = l'"
  shows "first_match lits xs = Some n \<longleftrightarrow> (\<exists>lit \<in> set lits. match_after lit xs = Some n)"
proof
  assume "first_match lits xs = Some n"
  then show "\<exists>lit \<in> set lits. match_after lit xs = Some n" by (rule first_match_Some)
next
  assume "\<exists>lit \<in> set lits. match_after lit xs = Some n"
  then obtain lit where lit: "lit \<in> set lits" and m: "match_after lit xs = Some n" by blast
  show "first_match lits xs = Some n"
  proof (cases "first_match lits xs")
    case None
    from first_match_None[OF None lit] m show ?thesis by simp
  next
    case (Some n')
    from first_match_Some[OF Some] obtain lit' where
      lit': "lit' \<in> set lits" and m': "match_after lit' xs = Some n'" by blast
    from assms lit lit' match_after_prefix[OF m] match_after_prefix[OF m'] have "lit = lit'"
      by blast
    with m m' Some show ?thesis by simp
  qed
qed

lemma hi_exclusive:
  "\<forall>l \<in> set [''Hi'', ''Hello'', ''Dear'', ''Hey''].
     \<forall>l' \<in> set [''Hi'', ''Hello'', ''Dear'', ''Hey'']. prefix l xs \<and> prefix l' xs \<longrightarrow> l = l'"
  by (auto simp: prefix_def)

lemma good_exclusive:
  "\<forall>l \<in> set [''morning'', ''afternoon'', ''evening''].
     \<forall>l' \<in> set [''morning'', ''afternoon'', ''evening'']. prefix l xs \<and> prefix l' xs \<longrightarrow> l = l'"
  by (auto simp: prefix_def)

lemma match_greeting1_iff: "match_greeting1 t = Some n \<longleftrightarrow> spec_match spec_hi t n"
  unfolding match_greeting1_def first_match_iff[OF hi_exclusive] match_after_iff
    spec_match_def spec_hi_def
  by blast

lemma match_greeting2_iff: "match_greeting2 t = Some n \<longleftrightarrow> spec_match spec_good t n"
proof
  assume a: "match_greeting2 t = Some n"
  then obtain t0 where t: "t = ''Good'' @ t0"
    by (auto simp: match_greeting2_def prefix_def split: if_splits)
  with a obtain ws0 r0 where sp: "match_spaces t0 = Some (ws0, r0)"
    and fm: "first_match [''morning'', ''afternoon'', ''evening''] r0 = Some n"
    by (auto simp: match_greeting2_def split: option.splits)
  from first_match_Some[OF fm] obtain lit where
    lit: "lit \<in> set [''morning'', ''afternoon'', ''evening'']"
    and m: "match_after lit r0 = Some n" by blast
  from m obtain ws rest where r0: "r0 = lit @ ws @ rest" and ws: "spec_spaces ws"
    and cap: "spec_capture rest n" unfolding match_after_iff by blast
  from match_spaces_Some[OF sp] have t0: "t0 = ws0 @ r0" and ws0: "spec_spaces ws0" by simp_all
  have "spec_good (''Good'' @ ws0 @ lit)" unfolding spec_good_def using ws0 lit by blast
  moreover have "t = (''Good'' @ ws0 @ lit) @ ws @ rest" unfolding t t0 r0 by simp
  ultimately show "spec_match spec_good t n" unfolding spec_match_def using ws cap by blast
next
  assume "spec_match spec_good t n"
  then obtain s ws rest where t: "t = s @ ws @ rest" and s: "spec_good s"
    and ws: "spec_spaces ws" and cap: "spec_capture rest n"
    unfolding spec_match_def by blast
  from s obtain ws0 lit where s': "s = ''Good'' @ ws0 @ lit" and ws0: "spec_spaces ws0"
    and lit: "lit \<in> set [''morning'', ''afternoon'', ''evening'']"
    unfolding spec_good_def by blast
  from lit have "\<not> is_space (hd (lit @ ws @ rest))" by (auto simp: is_space_def)
  with match_spaces_append[OF ws0, of "lit @ ws @ rest"]
  have sp: "match_spaces (ws0 @ lit @ ws @ rest) = Some (ws0, lit @ ws @ rest)" by simp
  have "match_after lit (lit @ ws @ rest) = Some n"
    unfolding match_after_iff using ws cap by blast
  with lit have "first_match [''morning'', ''afternoon'', ''evening''] (lit @ ws @ rest) = Some n"
    unfolding first_match_iff[OF good_exclusive] by blast
  with sp show "match_greeting2 t = Some n"
    by (simp add: match_greeting2_def t s')
qed

lemma re_search_leftmost:
  "re_search m p = Some n \<longleftrightarrow>
     (\<exists>pre t. p = pre @ t \<and> m t = Some n
        \<and> (\<forall>pre' t'. p = pre' @ t' \<and> length pre' < length pre \<longrightarrow> m t' = None))"
proof (induction p)
  case Nil
  then show ?case by auto
next
  case (Cons c cs)
  show ?case
  proof (cases "m (c # cs)")
    case (Some n')
    have "(\<exists>pre t. c # cs = pre @ t \<and> m t = Some n
        \<and> (\<forall>pre' t'. c # cs = pre' @ t' \<and> length pre' < length pre \<longrightarrow> m t' = None))
      \<longleftrightarrow> n' = n"
    proof
      assume "\<exists>pre t. c # cs = pre @ t \<and> m t = Some n
        \<and> (\<forall>pre' t'. c # cs = pre' @ t' \<and> length pre' < length pre \<longrightarrow> m t' = None)"
      then obtain pre t where e: "c # cs = pre @ t" and mt: "m t = Some n"
        and lm: "\<forall>pre' t'. c # cs = pre' @ t' \<and> length pre' < length pre \<longrightarrow> m t' = None"
        by blast
      show "n' = n"
      proof (cases pre)
        case Nil
        with e mt Some show ?thesis by simp
      next
        case (Cons a pre0)
        with lm[rule_format, of "[]" "c # cs"] Some show ?thesis by simp
      qed
    next
      assume "n' = n"
      with Some have "c # cs = [] @ (c # cs) \<and> m (c # cs) = Some n
        \<and> (\<forall>pre' t'. c # cs = pre' @ t' \<and> length pre' < length ([] :: string) \<longrightarrow> m t' = None)"
        by simp
      then show "\<exists>pre t. c # cs = pre @ t \<and> m t = Some n
        \<and> (\<forall>pre' t'. c # cs = pre' @ t' \<and> length pre' < length pre \<longrightarrow> m t' = None)"
        by blast
    qed
    with Some show ?thesis by auto
  next
    case None
    have "(\<exists>pre t. c # cs = pre @ t \<and> m t = Some n
        \<and> (\<forall>pre' t'. c # cs = pre' @ t' \<and> length pre' < length pre \<longrightarrow> m t' = None))
      \<longleftrightarrow> (\<exists>pre t. cs = pre @ t \<and> m t = Some n
        \<and> (\<forall>pre' t'. cs = pre' @ t' \<and> length pre' < length pre \<longrightarrow> m t' = None))"
    proof
      assume "\<exists>pre t. c # cs = pre @ t \<and> m t = Some n
        \<and> (\<forall>pre' t'. c # cs = pre' @ t' \<and> length pre' < length pre \<longrightarrow> m t' = None)"
      then obtain pre t where e: "c # cs = pre @ t" and mt: "m t = Some n"
        and lm: "\<forall>pre' t'. c # cs = pre' @ t' \<and> length pre' < length pre \<longrightarrow> m t' = None"
        by blast
      from e mt None obtain pre0 where pre: "pre = c # pre0" and cs: "cs = pre0 @ t"
        by (cases pre) auto
      have "\<forall>pre' t'. cs = pre' @ t' \<and> length pre' < length pre0 \<longrightarrow> m t' = None"
      proof (intro allI impI)
        fix pre' t' assume "cs = pre' @ t' \<and> length pre' < length pre0"
        then have "c # cs = (c # pre') @ t' \<and> length (c # pre') < length pre"
          by (simp add: pre)
        with lm show "m t' = None" by blast
      qed
      with cs mt show "\<exists>pre t. cs = pre @ t \<and> m t = Some n
        \<and> (\<forall>pre' t'. cs = pre' @ t' \<and> length pre' < length pre \<longrightarrow> m t' = None)"
        by blast
    next
      assume "\<exists>pre t. cs = pre @ t \<and> m t = Some n
        \<and> (\<forall>pre' t'. cs = pre' @ t' \<and> length pre' < length pre \<longrightarrow> m t' = None)"
      then obtain pre t where e: "cs = pre @ t" and mt: "m t = Some n"
        and lm: "\<forall>pre' t'. cs = pre' @ t' \<and> length pre' < length pre \<longrightarrow> m t' = None"
        by blast
      have "\<forall>pre' t'. c # cs = pre' @ t' \<and> length pre' < length (c # pre) \<longrightarrow> m t' = None"
      proof (intro allI impI)
        fix pre' t' assume a: "c # cs = pre' @ t' \<and> length pre' < length (c # pre)"
        show "m t' = None"
        proof (cases pre')
          case Nil
          with a None show ?thesis by simp
        next
          case (Cons a' pre'')
          with a have "cs = pre'' @ t' \<and> length pre'' < length pre" by simp
          with lm show ?thesis by blast
        qed
      qed
      moreover have "c # cs = (c # pre) @ t" using e by simp
      ultimately show "\<exists>pre t. c # cs = pre @ t \<and> m t = Some n
        \<and> (\<forall>pre' t'. c # cs = pre' @ t' \<and> length pre' < length pre \<longrightarrow> m t' = None)"
        using mt by blast
    qed
    with None Cons.IH show ?thesis by simp
  qed
qed

lemma re_search_first:
  assumes "\<And>t n. m t = Some n \<longleftrightarrow> spec_match sal t n"
  shows "re_search m p = Some n \<longleftrightarrow> spec_first sal p n"
proof -
  have none: "m t = None \<longleftrightarrow> (\<forall>n'. \<not> spec_match sal t n')" for t
    using assms[of t] by (cases "m t") auto
  show ?thesis unfolding re_search_leftmost spec_first_def assms none ..
qed

lemma capture_strip:
  assumes "spec_first sal p n"
  shows "py_strip n = n"
proof -
  from assms obtain t where "spec_match sal t n" unfolding spec_first_def by blast
  then obtain rest where "spec_capture rest n" unfolding spec_match_def by blast
  then have "match_name rest = Some n" by (simp add: match_name_iff)
  from match_name_Some[OF this] have "spec_name n" by blast
  then show ?thesis by (rule py_strip_name)
qed

lemma extract_greeting_name_iff:
  "extract_greeting_name body = Some n \<longleftrightarrow> spec_greeting_name (take 500 body) n"
proof -
  let ?p = "take 500 body"
  note s1 = re_search_first[of match_greeting1 spec_hi, OF match_greeting1_iff]
  note s2 = re_search_first[of match_greeting2 spec_good, OF match_greeting2_iff]
  show ?thesis
  proof (cases "re_search match_greeting1 ?p")
    case (Some n1)
    then have f: "spec_first spec_hi ?p n1" by (simp add: s1)
    from Some have e: "extract_greeting_name body = Some n1"
      by (simp add: extract_greeting_name_def capture_strip[OF f])
    have "spec_greeting_name ?p n \<longleftrightarrow> n = n1"
    proof
      assume "spec_greeting_name ?p n"
      with f have "spec_first spec_hi ?p n" unfolding spec_greeting_name_def by blast
      then have "re_search match_greeting1 ?p = Some n" by (simp add: s1)
      with Some show "n = n1" by simp
    next
      assume "n = n1"
      with f show "spec_greeting_name ?p n" unfolding spec_greeting_name_def by blast
    qed
    with e show ?thesis by auto
  next
    case None
    then have no: "\<forall>n'. \<not> spec_first spec_hi ?p n'"
      using s1[of ?p] by simp
    show ?thesis
    proof (cases "re_search match_greeting2 ?p")
      case None2: None
      then have no2: "\<forall>n'. \<not> spec_first spec_good ?p n'" using s2[of ?p] by simp
      from None None2 have "extract_greeting_name body = None"
        by (simp add: extract_greeting_name_def)
      with no no2 show ?thesis unfolding spec_greeting_name_def by simp
    next
      case (Some n2)
      then have f: "spec_first spec_good ?p n2" by (simp add: s2)
      from None Some have e: "extract_greeting_name body = Some n2"
        by (simp add: extract_greeting_name_def capture_strip[OF f])
      have "spec_greeting_name ?p n \<longleftrightarrow> n = n2"
      proof
        assume "spec_greeting_name ?p n"
        with no have "spec_first spec_good ?p n" unfolding spec_greeting_name_def by blast
        then have "re_search match_greeting2 ?p = Some n" by (simp add: s2)
        with Some show "n = n2" by simp
      next
        assume "n = n2"
        with f no show "spec_greeting_name ?p n" unfolding spec_greeting_name_def by blast
      qed
      with e show ?thesis by auto
    qed
  qed
qed

text \<open>
  Claim C9. The greeting name depends on the first 500 characters of the body only: two
  bodies with the same first 500 characters give the same result. The result is exactly
  the name the patterns capture in that prefix: one capitalised word taken whole, together
  with a second one when whitespace and a capitalised word follow, after the leftmost
  salutation of the first pattern (Hi, Hello, Dear, Hey) followed by whitespace and such a
  name, or else after the leftmost one of the second pattern (Good morning, afternoon,
  evening). In particular a returned name is one or two capitalised words standing after a
  salutation and whitespace, and nothing is returned exactly when the prefix holds no such
  greeting.
\<close>

theorem greeting_name_from_prefix:
  "(take 500 body1 = take 500 body2 \<longrightarrow>
      extract_greeting_name body1 = extract_greeting_name body2)
   \<and> (extract_greeting_name body = Some n \<longleftrightarrow> spec_greeting_name (take 500 body) n)
   \<and> (extract_greeting_name body = Some n \<longrightarrow> spec_greets (take 500 body) n)
   \<and> (extract_greeting_name body = None \<longleftrightarrow> (\<forall>n'. \<not> spec_greets (take 500 body) n'))"
proof (intro conjI impI)
  assume e: "take 500 body1 = take 500 body2"
  show "extract_greeting_name body1 = extract_greeting_name body2"
    unfolding extract_greeting_name_def e by (rule refl)
next
  show "extract_greeting_name body = Some n \<longleftrightarrow> spec_greeting_name (take 500 body) n"
    by (rule extract_greeting_name_iff)
next
  assume "extract_greeting_name body = Some n"
  then show "spec_greets (take 500 body) n" by (rule extract_greeting_name_Some)
next
  show "extract_greeting_name body = None \<longleftrightarrow> (\<forall>n'. \<not> spec_greets (take 500 body) n')"
  proof
    assume "extract_greeting_name body = None"
    then show "\<forall>n'. \<not> spec_greets (take 500 body) n'"
      by (blast dest: extract_greeting_name_None)
  next
    assume a: "\<forall>n'. \<not> spec_greets (take 500 body) n'"
    show "extract_greeting_name body = None"
    proof (cases "extract_greeting_name body")
      case None
      then show ?thesis .
    next
      case (Some n')
      from extract_greeting_name_Some[OF Some] a show ?thesis by blast
    qed
  qed
qed

theorem greeting_name_from_prefix_witness:
  "take 500 (''Hi John,'' @ replicate 500 (CHR ''x'') @ ''Dear Ann'')
     = take 500 (''Hi John,'' @ replicate 500 (CHR ''x'') @ ''Hello Bob'')
   \<and> extract_greeting_name (''Hi John,'' @ replicate 500 (CHR ''x'') @ ''Dear Ann'')
     = extract_greeting_name (''Hi John,'' @ replicate 500 (CHR ''x'') @ ''Hello Bob'')
   \<and> extract_greeting_name (''Hi John,'' @ replicate 500 (CHR ''x'') @ ''Dear Ann'')
     = Some ''John''
   \<and> extract_greeting_name ''Hi John Smith'' = Some ''John Smith''
   \<and> spec_greeting_name (take 500 ''Hi John Smith'') ''John Smith''
   \<and> \<not> spec_greeting_name (take 500 ''Hi John Smith'') ''John''
   \<and> spec_greets (take 500 ''Hi John Smith'') ''John Smith''
   \<and> extract_greeting_name ''Good morning Ann, Hi Bob'' = Some ''Bob''
   \<and> spec_greeting_name (take 500 ''Good morning Ann, Hi Bob'') ''Bob''
   \<and> \<not> spec_greeting_name (take 500 ''Good morning Ann, Hi Bob'') ''Ann''
   \<and> extract_greeting_name ''Good Morning Alice'' = None
   \<and> \<not> spec_greets (take 500 ''Good Morning Alice'') ''Alice''"
proof -
  let ?b1 = "''Hi John,'' @ replicate 500 (CHR ''x'') @ ''Dear Ann''"
  let ?b2 = "''Hi John,'' @ replicate 500 (CHR ''x'') @ ''Hello Bob''"
  have t: "take 500 ?b1 = take 500 ?b2" by simp
  have p: "take 500 ?b1 = ''Hi John,'' @ replicate 492 (CHR ''x'')" by simp
  have g: "extract_greeting_name ?b1 = Some ''John''"
    unfolding extract_greeting_name_def p
    by (simp add: match_greeting1_def match_after_def match_spaces_def match_name_def
        match_word_def py_strip_def is_space_def is_upper_def is_lower_def)
  have js: "extract_greeting_name ''Hi John Smith'' = Some ''John Smith''" by code_simp
  have bob: "extract_greeting_name ''Good morning Ann, Hi Bob'' = Some ''Bob''" by code_simp
  have n: "extract_greeting_name ''Good Morning Alice'' = None" by code_simp
  from greeting_name_from_prefix[of ?b1 ?b2 ?b1 "''John''"] t
  have 1: "extract_greeting_name ?b1 = extract_greeting_name ?b2" by blast
  from greeting_name_from_prefix[of ?b1 ?b2 "''Hi John Smith''" "''John Smith''"] js
  have 2: "spec_greeting_name (take 500 ''Hi John Smith'') ''John Smith''"
    and 3: "spec_greets (take 500 ''Hi John Smith'') ''John Smith''" by blast+
  from greeting_name_from_prefix[of ?b1 ?b2 "''Hi John Smith''" "''John''"] js
  have 4: "\<not> spec_greeting_name (take 500 ''Hi John Smith'') ''John''" by simp
  from greeting_name_from_prefix[of ?b1 ?b2 "''Good morning Ann, Hi Bob''" "''Bob''"] bob
  have 5: "spec_greeting_name (take 500 ''Good morning Ann, Hi Bob'') ''Bob''" by blast
  from greeting_name_from_prefix[of ?b1 ?b2 "''Good morning Ann, Hi Bob''" "''Ann''"] bob
  have 6: "\<not> spec_greeting_name (take 500 ''Good morning Ann, Hi Bob'') ''Ann''" by simp
  from greeting_name_from_prefix[of ?b1 ?b2 "''Good Morning Alice''" "''John''"] n
  have 7: "\<not> spec_greets (take 500 ''Good Morning Alice'') ''Alice''" by blast
  from t 1 g js 2 4 3 bob 5 6 n 7 show ?thesis by blast
qed

end
